theory Spec2Isabelle
  imports Complex_Main "HOL-Library.AList"
begin

section \<open>Python values used by the parser\<close>

text \<open>
  Exceptions are values. Every operation of the source that can raise returns
  \<open>error + 'a\<close>, with \<open>Inl\<close> for the exception.
\<close>

datatype error = IndexError | KeyError | ValueError | TypeError

text \<open>
  The parser computes with floats: \<open>math.log2\<close> of a rule probability, \<open>+\<close>, the test
  \<open>>\<close> and the value \<open>float("-Inf")\<close>. What these give on doubles (rounding, overflow,
  NaN) is a parameter of the parser: a value of type \<open>'f arith\<close>, with \<open>'f\<close> the type of
  the floats. \<open>log2_op\<close> is the value of \<open>math.log2\<close> at a positive probability; the
  ValueError outside the domain is in \<open>log2\<close> below. A rule probability is a finite
  float and is taken as the real number it denotes; \<open>inf\<close> and NaN as probabilities are
  not modelled (a grammar with one does not pass \<open>verify_grammar\<close>).
\<close>

record 'f arith =
  log2_op :: "real \<Rightarrow> 'f"
  add_op :: "'f \<Rightarrow> 'f \<Rightarrow> 'f"
  gt_op :: "'f \<Rightarrow> 'f \<Rightarrow> bool"
  neg_inf :: "'f"

text \<open>
  The exact arithmetic: a float is the real number it denotes or \<open>float("-Inf")\<close>, and
  nothing is rounded.
\<close>

datatype pyfloat = NegInf | Fin real

fun fadd :: "pyfloat \<Rightarrow> pyfloat \<Rightarrow> pyfloat" where
  "fadd (Fin a) (Fin b) = Fin (a + b)"
| "fadd _ _ = NegInf"

fun fgt :: "pyfloat \<Rightarrow> pyfloat \<Rightarrow> bool" where
  "fgt (Fin a) (Fin b) = (a > b)"
| "fgt (Fin a) NegInf = True"
| "fgt NegInf _ = False"

definition exact :: "pyfloat arith" where
  "exact = \<lparr>log2_op = (\<lambda>x. Fin (log 2 x)), add_op = fadd, gt_op = fgt, neg_inf = NegInf\<rparr>"

text \<open>\<open>math.log2\<close> raises ValueError outside its domain.\<close>

definition log2 :: "'f arith \<Rightarrow> real \<Rightarrow> error + 'f" where
  "log2 ar x = (if x \<le> 0 then Inl ValueError else Inr (log2_op ar x))"

text \<open>A plain dict is an association list in insertion order; \<open>d[k]\<close> raises KeyError
  on a missing key and \<open>d[k] = v\<close> keeps the position of a key already present.\<close>

definition getitem :: "('k \<times> 'v) list \<Rightarrow> 'k \<Rightarrow> error + 'v" where
  "getitem d k = (case map_of d k of None \<Rightarrow> Inl KeyError | Some v \<Rightarrow> Inr v)"

definition setitem :: "('k \<times> 'v) list \<Rightarrow> 'k \<Rightarrow> 'v \<Rightarrow> ('k \<times> 'v) list" where
  "setitem d k v = AList.update k v d"

section \<open>The grammar (grammar.py)\<close>

text \<open>A rule is the tuple \<open>(lhs, rhs, prob)\<close> built by \<open>parse_rule\<close>.\<close>

type_synonym rule = "string \<times> string list \<times> real"

text \<open>
  \<open>rhs_to_rules\<close> and \<open>lhs_to_rules\<close> are \<open>defaultdict(list)\<close>. No code iterates
  \<open>rhs_to_rules\<close>, so it is a map; \<open>verify_grammar\<close> iterates \<open>lhs_to_rules\<close>, so
  that one keeps its key order. \<open>startsymbol\<close> is \<open>None\<close> until a start line is read.
\<close>

type_synonym rdict = "string list \<rightharpoonup> rule list"

record Pcfg =
  rhs_to_rules :: rdict
  lhs_to_rules :: "(string \<times> rule list) list"
  startsymbol :: "string option"

text \<open>\<open>d[k]\<close> on a \<open>defaultdict(list)\<close>: a missing key is inserted with \<open>[]\<close>.\<close>

definition getitem_default :: "('k \<rightharpoonup> 'v list) \<Rightarrow> 'k \<Rightarrow> 'v list \<times> ('k \<rightharpoonup> 'v list)" where
  "getitem_default d k = (case d k of Some v \<Rightarrow> (v, d) | None \<Rightarrow> ([], d(k \<mapsto> [])))"

subsection \<open>verify\_grammar\<close>

text \<open>
  \<open>str.isupper\<close>: at least one cased character and no lowercase one. Symbols are
  ASCII strings here; the cased characters are the letters.
\<close>

definition is_upper_char :: "char \<Rightarrow> bool" where
  "is_upper_char c = (65 \<le> (of_char c :: nat) \<and> (of_char c :: nat) \<le> 90)"

definition is_lower_char :: "char \<Rightarrow> bool" where
  "is_lower_char c = (97 \<le> (of_char c :: nat) \<and> (of_char c :: nat) \<le> 122)"

definition isupper :: "string \<Rightarrow> bool" where
  "isupper s = (list_ex is_upper_char s \<and> \<not> list_ex is_lower_char s)"

text \<open>\<open>math.fsum\<close> is the exact sum; \<open>math.isclose(a, b, rel_tol=r)\<close> with the
  default \<open>abs_tol = 0\<close>.\<close>

definition fsum :: "real list \<Rightarrow> real" where
  "fsum xs = sum_list xs"

definition isclose :: "real \<Rightarrow> real \<Rightarrow> real \<Rightarrow> bool" where
  "isclose a b rel_tol =
     (a = b \<or> \<bar>b - a\<bar> \<le> \<bar>rel_tol * b\<bar> \<or> \<bar>b - a\<bar> \<le> \<bar>rel_tol * a\<bar> \<or> \<bar>b - a\<bar> \<le> 0)"

definition rule_format_ok :: "string list \<Rightarrow> bool" where
  "rule_format_ok rule = ((length rule = 2 \<and> list_all isupper rule) \<or> length rule = 1)"

fun check_rules :: "rule list \<Rightarrow> bool" where
  "check_rules [] = True"
| "check_rules ((_, rule, _) # rules) =
     (if \<not> rule_format_ok rule then False else check_rules rules)"

fun verify_loop :: "(string \<times> rule list) list \<Rightarrow> string list \<Rightarrow> string" where
  "verify_loop d [] = ''confirmation!''"
| "verify_loop d (i # keys) =
     (let rules = (case map_of d i of Some rs \<Rightarrow> rs | None \<Rightarrow> [])
      in if \<not> isclose (fsum (map (\<lambda>(_, _, p). p) rules)) 1 (1 / 100000)
         then ''error: sum!=1!''
         else if \<not> check_rules rules then ''error: wrong format!''
         else verify_loop d keys)"

definition verify_grammar :: "Pcfg \<Rightarrow> string" where
  "verify_grammar G = verify_loop (lhs_to_rules G) (map fst (lhs_to_rules G))"







section \<open>The parser (cky.py)\<close>

subsection \<open>Computations that read the grammar\<close>

text \<open>
  Both engines read \<open>self.grammar.rhs_to_rules[...]\<close>, which may insert a key, and
  may raise. A computation takes the dictionary and returns an exception or a value,
  with the dictionary as the computation left it.
\<close>

type_synonym 'a M = "rdict \<Rightarrow> (error + 'a) \<times> rdict"

definition returnM :: "'a \<Rightarrow> 'a M" where
  "returnM a = (\<lambda>d. (Inr a, d))"

definition bindM :: "'a M \<Rightarrow> ('a \<Rightarrow> 'b M) \<Rightarrow> 'b M" where
  "bindM m f = (\<lambda>d. case m d of (Inl e, d') \<Rightarrow> (Inl e, d') | (Inr a, d') \<Rightarrow> f a d')"

definition bindE :: "error + 'a \<Rightarrow> ('a \<Rightarrow> error + 'b) \<Rightarrow> error + 'b" where
  "bindE r f = (case r of Inl e \<Rightarrow> Inl e | Inr a \<Rightarrow> f a)"

definition liftE :: "error + 'a \<Rightarrow> 'a M" where
  "liftE r = (\<lambda>d. (r, d))"

definition lookup_rules :: "string list \<Rightarrow> rule list M" where
  "lookup_rules key = (\<lambda>d. case getitem_default d key of (rules, d') \<Rightarrow> (Inr rules, d'))"

text \<open>A \<open>for\<close> loop over a list: the body takes the element and the variables the loop
  updates. A comprehension is the loop that appends to the list it builds.\<close>

fun forM :: "'x list \<Rightarrow> ('x \<Rightarrow> 'a \<Rightarrow> 'a M) \<Rightarrow> 'a \<Rightarrow> 'a M" where
  "forM [] body a = returnM a"
| "forM (x # xs) body a = bindM (body x a) (forM xs body)"

text \<open>List indexing raises IndexError out of range; \<open>xs[-1]\<close> is the last element.\<close>

definition getidx :: "'a list \<Rightarrow> nat \<Rightarrow> error + 'a" where
  "getidx xs i = (if i < length xs then Inr (xs ! i) else Inl IndexError)"

definition getlast :: "'a list \<Rightarrow> error + 'a" where
  "getlast xs = (if xs = [] then Inl IndexError else Inr (last xs))"

definition getidx2 :: "'a list list \<Rightarrow> nat \<Rightarrow> nat \<Rightarrow> error + 'a" where
  "getidx2 pi' i j = bindE (getidx pi' i) (\<lambda>row. getidx row j)"

definition setidx2 :: "'a list list \<Rightarrow> nat \<Rightarrow> nat \<Rightarrow> 'a \<Rightarrow> error + 'a list list" where
  "setidx2 pi' i j v =
     bindE (getidx pi' i) (\<lambda>row.
       if j < length row then Inr (pi'[i := row[j := v]]) else Inl IndexError)"

text \<open>
  The iteration order of a Python \<open>set\<close> is not specified (it follows the hashes, and
  string hashes change from run to run). A set is modelled by the list of its elements in
  iteration order, and the order is a parameter \<open>so\<close> of the engines: \<open>so xs\<close> is the
  set built from the elements \<open>xs\<close>. Any \<open>so\<close> with \<open>set_order so\<close> is a possible run.
\<close>

definition set_order :: "('a list \<Rightarrow> 'a list) \<Rightarrow> bool" where
  "set_order so = (\<forall>xs. set (so xs) = set xs \<and> distinct (so xs))"

subsection \<open>is\_in\_language\<close>

text \<open>
  \<open>pi\<close> is a list of \<open>n\<close> rows of \<open>n + 1\<close> sets. The rows are distinct lists; their
  cells start as one shared empty set, which is never mutated (\<open>union\<close> builds a new set).
\<close>

definition split_step ::
  "(string list \<Rightarrow> string list) \<Rightarrow> nat \<Rightarrow> nat \<Rightarrow> nat \<Rightarrow> string list list list \<Rightarrow> string list list list M" where
  "split_step so i j k pi' =
     bindM (liftE (getidx2 pi' i k)) (\<lambda>bs.
     bindM (forM bs (\<lambda>b acc.
              bindM (liftE (getidx2 pi' k j)) (\<lambda>cs.
              forM cs (\<lambda>c acc.
                bindM (lookup_rules [b, c]) (\<lambda>rules.
                returnM (acc @ map fst rules))) acc)) [])
     (\<lambda>M.
     bindM (liftE (getidx2 pi' i j)) (\<lambda>old.
     liftE (setidx2 pi' i j (so (old @ so M))))))"

definition is_in_language_run ::
  "(string list \<Rightarrow> string list) \<Rightarrow> string option \<Rightarrow> string list \<Rightarrow> bool M" where
  "is_in_language_run so start tokens =
     (let n = length tokens in
      bindM (forM tokens (\<lambda>i init.
               bindM (lookup_rules [i]) (\<lambda>rules.
               returnM (init @ [so (map fst rules)]))) [])
      (\<lambda>init.
      bindM (forM [0..<n] (\<lambda>i pi'.
               liftE (bindE (getidx init i) (\<lambda>s. setidx2 pi' i (i + 1) s)))
             (replicate n (replicate (n + 1) [])))
      (\<lambda>pi'.
      bindM (forM [2..<n + 1] (\<lambda>l.
               forM [0..<n - l + 1] (\<lambda>i.
                 forM [i + 1..<i + l] (split_step so i (i + l)))) pi')
      (\<lambda>pi'.
      liftE (bindE (getidx pi' 0) (\<lambda>row.
             bindE (getlast row) (\<lambda>cell.
             Inr (case start of None \<Rightarrow> False | Some s \<Rightarrow> s \<in> set cell))))))))"

definition is_in_language ::
  "(string list \<Rightarrow> string list) \<Rightarrow> Pcfg \<Rightarrow> string list \<Rightarrow> (error + bool) \<times> Pcfg" where
  "is_in_language so G tokens =
     (case is_in_language_run so (startsymbol G) tokens (rhs_to_rules G) of
        (r, d') \<Rightarrow> (r, G\<lparr>rhs_to_rules := d'\<rparr>))"

subsection \<open>parse\_with\_backpointers\<close>

text \<open>
  A chart is a dict from spans to dicts from nonterminals to cell values. A cell of the
  backpointer chart is the token (a leaf), a pair of backpointers, or the initial value
  \<open>((0,0,0),(0,0,0))\<close>, here \<open>Sentinel\<close>.
\<close>

datatype backpointer = Leaf string | Split "string \<times> nat \<times> nat" "string \<times> nat \<times> nat" | Sentinel

type_synonym 'v chart = "((nat \<times> nat) \<times> (string \<times> 'v) list) list"

definition getitem2 :: "'v chart \<Rightarrow> nat \<times> nat \<Rightarrow> string \<Rightarrow> error + 'v" where
  "getitem2 c sp a = bindE (getitem c sp) (\<lambda>cell. getitem cell a)"

definition setitem2 :: "'v chart \<Rightarrow> nat \<times> nat \<Rightarrow> string \<Rightarrow> 'v \<Rightarrow> error + 'v chart" where
  "setitem2 c sp a v = bindE (getitem c sp) (\<lambda>cell. Inr (setitem c sp (setitem cell a v)))"

definition cell_keys :: "'v chart \<Rightarrow> nat \<times> nat \<Rightarrow> error + string list" where
  "cell_keys c sp = bindE (getitem c sp) (\<lambda>cell. Inr (map fst cell))"

type_synonym 'f charts = "backpointer chart \<times> 'f chart"

definition base_step ::
  "'f arith \<Rightarrow> string list \<Rightarrow> (string \<times> real) list list \<Rightarrow> nat \<Rightarrow> 'f charts \<Rightarrow> 'f charts M" where
  "base_step ar tokens init i = (\<lambda>(tb, pb).
     bindM (liftE (getidx init i)) (\<lambda>pairs.
     forM pairs (\<lambda>(a, b) (tb, pb).
       liftE (bindE (getidx tokens i) (\<lambda>tok.
              bindE (setitem2 tb (i, i + 1) a (Leaf tok)) (\<lambda>tb.
              bindE (log2 ar b) (\<lambda>v.
              bindE (setitem2 pb (i, i + 1) a v) (\<lambda>pb.
              Inr (tb, pb)))))))
       (setitem tb (i, i + 1) [], setitem pb (i, i + 1) [])))"

definition cand_step ::
  "'f arith \<Rightarrow> nat \<Rightarrow> nat \<Rightarrow> nat \<Rightarrow> string \<Rightarrow> string \<Rightarrow> string \<Rightarrow> real \<Rightarrow> 'f charts
     \<Rightarrow> error + 'f charts" where
  "cand_step ar i j k x y l p = (\<lambda>(tb, pb).
     bindE (log2 ar p) (\<lambda>lp.
     bindE (getitem2 pb (i, k) x) (\<lambda>px.
     bindE (getitem2 pb (k, j) y) (\<lambda>py.
     bindE (getitem2 pb (i, j) l) (\<lambda>cur.
       if gt_op ar (add_op ar (add_op ar lp px) py) cur
       then bindE (setitem2 pb (i, j) l (add_op ar (add_op ar lp px) py)) (\<lambda>pb.
            bindE (setitem2 tb (i, j) l (Split (x, i, k) (y, k, j))) (\<lambda>tb.
            Inr (tb, pb)))
       else Inr (tb, pb))))))"

definition span_step :: "'f arith \<Rightarrow> nat \<Rightarrow> nat \<Rightarrow> 'f charts \<Rightarrow> 'f charts M" where
  "span_step ar i j = (\<lambda>(tb0, pb0).
     (let pb = setitem pb0 (i, j) []; tb = setitem tb0 (i, j) [] in
      bindM (forM [i + 1..<j] (\<lambda>k acc.
               bindM (liftE (cell_keys pb (i, k))) (\<lambda>xs.
               forM xs (\<lambda>x acc.
                 bindM (liftE (cell_keys pb (k, j))) (\<lambda>ys.
                 forM ys (\<lambda>y acc.
                   bindM (lookup_rules [x, y]) (\<lambda>rules.
                   returnM (acc @ map fst rules))) acc)) acc)) [])
      (\<lambda>L.
      bindM (forM L (\<lambda>l (tb, pb).
               liftE (bindE (setitem2 pb (i, j) l (neg_inf ar)) (\<lambda>pb.
                      bindE (setitem2 tb (i, j) l Sentinel) (\<lambda>tb.
                      Inr (tb, pb))))) (tb, pb))
      (\<lambda>tp.
      forM [i + 1..<j] (\<lambda>k tp.
        bindM (liftE (cell_keys (snd tp) (i, k))) (\<lambda>xs.
        forM xs (\<lambda>x tp.
          bindM (liftE (cell_keys (snd tp) (k, j))) (\<lambda>ys.
          forM ys (\<lambda>y tp.
            bindM (lookup_rules [x, y]) (\<lambda>rules.
            forM rules (\<lambda>(l, _, p) tp. liftE (cand_step ar i j k x y l p tp)) tp)) tp)) tp)) tp))))"

definition parse_run ::
  "'f arith \<Rightarrow> ((string \<times> real) list \<Rightarrow> (string \<times> real) list) \<Rightarrow> string list \<Rightarrow> 'f charts M" where
  "parse_run ar so tokens =
     (let n = length tokens in
      bindM (forM tokens (\<lambda>i init.
               bindM (lookup_rules [i]) (\<lambda>rules.
               returnM (init @ [so (map (\<lambda>(j, _, p). (j, p)) rules)]))) [])
      (\<lambda>init.
      bindM (forM [0..<n] (base_step ar tokens init) ([], []))
      (\<lambda>tp.
      forM [2..<n + 1] (\<lambda>length.
        forM [0..<n - length + 1] (\<lambda>i. span_step ar i (i + length))) tp)))"

definition parse_with_backpointers ::
  "'f arith \<Rightarrow> ((string \<times> real) list \<Rightarrow> (string \<times> real) list) \<Rightarrow> Pcfg \<Rightarrow> string list
     \<Rightarrow> (error + 'f charts) \<times> Pcfg" where
  "parse_with_backpointers ar so G tokens =
     (case parse_run ar so tokens (rhs_to_rules G) of
        (r, d') \<Rightarrow> (r, G\<lparr>rhs_to_rules := d'\<rparr>))"

subsection \<open>get\_tree\<close>




subsection \<open>check\_table\_format\<close>

text \<open>
  The validator takes any Python object, so its argument is a value of a small universe
  of Python values. A dict is the list of its items in order; while its keys are being
  iterated, \<open>table[split]\<close> is the value of the item. \<open>bool\<close> is a subclass of
  \<open>int\<close>.
\<close>

datatype pyval =
    PNone | PBool bool | PInt int | PFloat real | PStr string | PBytes "nat list"
  | PTuple "pyval list" | PList "pyval list" | PDict "(pyval \<times> pyval) list"

fun is_tuple :: "pyval \<Rightarrow> bool" where
  "is_tuple (PTuple _) = True"
| "is_tuple _ = False"

fun is_dict :: "pyval \<Rightarrow> bool" where
  "is_dict (PDict _) = True"
| "is_dict _ = False"

fun is_str :: "pyval \<Rightarrow> bool" where
  "is_str (PStr _) = True"
| "is_str _ = False"

fun is_int :: "pyval \<Rightarrow> bool" where
  "is_int (PInt _) = True"
| "is_int (PBool _) = True"
| "is_int _ = False"

text \<open>\<open>len(x)\<close> and \<open>x[i]\<close> for a constant index \<open>i\<close>; both raise TypeError on a
  value that has no length or cannot be indexed.\<close>

fun py_len :: "pyval \<Rightarrow> error + nat" where
  "py_len (PStr s) = Inr (length s)"
| "py_len (PBytes b) = Inr (length b)"
| "py_len (PTuple xs) = Inr (length xs)"
| "py_len (PList xs) = Inr (length xs)"
| "py_len (PDict d) = Inr (length d)"
| "py_len _ = Inl TypeError"

fun py_index :: "pyval \<Rightarrow> nat \<Rightarrow> error + pyval" where
  "py_index (PStr s) i = (if i < length s then Inr (PStr [s ! i]) else Inl IndexError)"
| "py_index (PBytes b) i = (if i < length b then Inr (PInt (int (b ! i))) else Inl IndexError)"
| "py_index (PTuple xs) i = getidx xs i"
| "py_index (PList xs) i = getidx xs i"
| "py_index (PDict d) i = getitem d (PInt (int i))"
| "py_index _ i = Inl TypeError"

text \<open>The messages written to \<open>sys.stderr\<close>, by what they report.\<close>

datatype diagnostic =
    NotADict | BadSpanKey | SpanValueNotDict | BadNonterminalKey | BadCellType
  | NotTwoBackpointers | BackpointerLength | BackpointerType

type_synonym verdict = "diagnostic list \<times> (error + bool)"

text \<open>
  The test on a span key, as Python parses it:
  \<open>(not isinstance(split, tuple)) and len(split) == 2 and isinstance(split[0], int)
  and isinstance(split[1], int)\<close>, evaluated left to right.
\<close>

definition bad_span_key :: "pyval \<Rightarrow> error + bool" where
  "bad_span_key split =
     (if \<not> (\<not> is_tuple split) then Inr False
      else bindE (py_len split) (\<lambda>n.
        if \<not> (n = 2) then Inr False
        else bindE (py_index split 0) (\<lambda>a.
          if \<not> is_int a then Inr False
          else bindE (py_index split 1) (\<lambda>b. Inr (is_int b)))))"

text \<open>Each loop returns \<open>Inr True\<close> when it ran to its end without a \<open>return\<close>.\<close>

fun check_bps :: "pyval list \<Rightarrow> verdict" where
  "check_bps [] = ([], Inr True)"
| "check_bps (bp # bps) =
     (case bp of
        PTuple xs \<Rightarrow>
          if length xs \<noteq> 3 then ([BackpointerLength], Inr False)
          else if \<not> (is_str (xs ! 0) \<and> is_int (xs ! 1) \<and> is_int (xs ! 2))
               then ([BackpointerType], Inr False)
               else check_bps bps
      | _ \<Rightarrow> ([BackpointerLength], Inr False))"

fun check_cell :: "(pyval \<times> pyval) list \<Rightarrow> verdict" where
  "check_cell [] = ([], Inr True)"
| "check_cell ((nt, bps) # items) =
     (if \<not> is_str nt then ([BadNonterminalKey], Inr False)
      else if is_str bps then check_cell items
      else (case bps of
              PTuple xs \<Rightarrow>
                if length xs \<noteq> 2 then ([NotTwoBackpointers], Inr False)
                else (case check_bps xs of
                        ([], Inr True) \<Rightarrow> check_cell items
                      | v \<Rightarrow> v)
            | _ \<Rightarrow> ([BadCellType], Inr False)))"

fun check_spans :: "(pyval \<times> pyval) list \<Rightarrow> verdict" where
  "check_spans [] = ([], Inr True)"
| "check_spans ((split, cell) # items) =
     (case bad_span_key split of
        Inl e \<Rightarrow> ([], Inl e)
      | Inr True \<Rightarrow> ([BadSpanKey], Inr False)
      | Inr False \<Rightarrow>
          (case cell of
             PDict cell_items \<Rightarrow>
               (case check_cell cell_items of
                  ([], Inr True) \<Rightarrow> check_spans items
                | v \<Rightarrow> v)
           | _ \<Rightarrow> ([SpanValueNotDict], Inr False)))"

definition check_table_format :: "pyval \<Rightarrow> verdict" where
  "check_table_format table =
     (case table of PDict items \<Rightarrow> check_spans items | _ \<Rightarrow> ([NotADict], Inr False))"

text \<open>A span key as the validator's messages describe it: a tuple \<open>(i, j)\<close> of two
  integers.\<close>

fun is_span_key :: "pyval \<Rightarrow> bool" where
  "is_span_key (PTuple [a, b]) = (is_int a \<and> is_int b)"
| "is_span_key _ = False"

section \<open>Specification vocabulary\<close>

subsection \<open>What a run may do to the grammar\<close>

text \<open>The rules a dictionary gives for a right-hand side, absent keys giving none.\<close>

definition rules_of :: "rdict \<Rightarrow> string list \<Rightarrow> rule list" where
  "rules_of d key = (case d key of None \<Rightarrow> [] | Some rules \<Rightarrow> rules)"

text \<open>\<open>ext d d'\<close>: \<open>d'\<close> is \<open>d\<close> with some absent keys added, each with the empty list.\<close>

definition ext :: "rdict \<Rightarrow> rdict \<Rightarrow> bool" where
  "ext d d' = (\<forall>key. d' key = d key \<or> (d key = None \<and> d' key = Some []))"

definition grammar_kept :: "Pcfg \<Rightarrow> Pcfg \<Rightarrow> bool" where
  "grammar_kept G G' =
     (startsymbol G' = startsymbol G \<and> lhs_to_rules G' = lhs_to_rules G
      \<and> ext (rhs_to_rules G) (rhs_to_rules G')
      \<and> rules_of (rhs_to_rules G') = rules_of (rhs_to_rules G))"

text \<open>
  \<open>ensuresM R m P Q\<close>: started on any dictionary whose rules are \<open>R\<close>, the computation
  \<open>m\<close> returns a value satisfying \<open>P\<close> or raises an exception satisfying \<open>Q\<close>, and
  leaves an extension of the dictionary.
\<close>

definition ensures :: "error + 'a \<Rightarrow> ('a \<Rightarrow> bool) \<Rightarrow> (error \<Rightarrow> bool) \<Rightarrow> bool" where
  "ensures r P Q = (case r of Inr a \<Rightarrow> P a | Inl e \<Rightarrow> Q e)"

definition ensuresM ::
  "(string list \<Rightarrow> rule list) \<Rightarrow> 'a M \<Rightarrow> ('a \<Rightarrow> bool) \<Rightarrow> (error \<Rightarrow> bool) \<Rightarrow> bool" where
  "ensuresM R m P Q =
     (\<forall>d. rules_of d = R \<longrightarrow> ensures (fst (m d)) P Q \<and> ext d (snd (m d)))"

subsection \<open>Derivations\<close>

text \<open>
  \<open>derives R A w\<close>: the symbol \<open>A\<close> derives the token sequence \<open>w\<close> by the rules \<open>R\<close>,
  a unary rule producing one token and a binary rule two derived parts. Probabilities
  play no part.
\<close>

inductive derives :: "(string list \<Rightarrow> rule list) \<Rightarrow> string \<Rightarrow> string list \<Rightarrow> bool"
  for R :: "string list \<Rightarrow> rule list" where
  unary: "(A, rhs, p) \<in> set (R [t]) \<Longrightarrow> derives R A [t]"
| binary: "(A, rhs, p) \<in> set (R [B, C]) \<Longrightarrow> derives R B u \<Longrightarrow> derives R C v
           \<Longrightarrow> derives R A (u @ v)"

text \<open>\<open>deriv R A w s\<close>: some derivation of \<open>w\<close> from \<open>A\<close> has the sum \<open>s\<close> of the
  \<open>log2\<close> of the probabilities of the rules it uses.\<close>

inductive deriv :: "(string list \<Rightarrow> rule list) \<Rightarrow> string \<Rightarrow> string list \<Rightarrow> real \<Rightarrow> bool"
  for R :: "string list \<Rightarrow> rule list" where
  unary_score: "(A, rhs, p) \<in> set (R [t]) \<Longrightarrow> deriv R A [t] (log 2 p)"
| binary_score: "(A, rhs, p) \<in> set (R [B, C]) \<Longrightarrow> deriv R B u s1 \<Longrightarrow> deriv R C v s2
           \<Longrightarrow> deriv R A (u @ v) (log 2 p + s1 + s2)"

text \<open>\<open>tokens[i:j]\<close>.\<close>

definition slice :: "'a list \<Rightarrow> nat \<Rightarrow> nat \<Rightarrow> 'a list" where
  "slice xs i j = take (j - i) (drop i xs)"

definition in_language :: "Pcfg \<Rightarrow> string list \<Rightarrow> bool" where
  "in_language G tokens =
     (case startsymbol G of None \<Rightarrow> False
      | Some s \<Rightarrow> derives (rules_of (rhs_to_rules G)) s tokens)"

text \<open>The symbols that derive \<open>tokens[i:j]\<close>, and the left-hand sides of the binary rules
  over a pair of symbol sets.\<close>

definition reach :: "(string list \<Rightarrow> rule list) \<Rightarrow> string list \<Rightarrow> nat \<Rightarrow> nat \<Rightarrow> string set" where
  "reach R tokens i j = {A. derives R A (slice tokens i j)}"

definition join :: "(string list \<Rightarrow> rule list) \<Rightarrow> string set \<Rightarrow> string set \<Rightarrow> string set" where
  "join R X Y = (\<Union>B\<in>X. \<Union>C\<in>Y. fst ` set (R [B, C]))"

subsection \<open>Invariants of the recognition table\<close>

text \<open>\<open>tab pi' n E\<close>: the table has \<open>n\<close> rows of \<open>n + 1\<close> cells and cell \<open>(i, j)\<close> holds
  the set \<open>E i j\<close>. \<open>stage\<close> is the content once all spans shorter than \<open>l\<close>, and
  those of length \<open>l\<close> starting before \<open>m\<close>, are filled; \<open>inner\<close> is the content while
  the span \<open>(i, i + l)\<close> is being filled, the split points below \<open>k'\<close> done.\<close>

definition tab :: "string list list list \<Rightarrow> nat \<Rightarrow> (nat \<Rightarrow> nat \<Rightarrow> string set) \<Rightarrow> bool" where
  "tab pi' n E =
     (length pi' = n \<and> (\<forall>i<n. length (pi' ! i) = n + 1 \<and> (\<forall>j\<le>n. set (pi' ! i ! j) = E i j)))"

definition stage ::
  "(string list \<Rightarrow> rule list) \<Rightarrow> string list \<Rightarrow> nat \<Rightarrow> nat \<Rightarrow> nat \<Rightarrow> nat \<Rightarrow> string set" where
  "stage R tokens l m i j =
     (if i < j \<and> j \<le> length tokens \<and> (j - i < l \<or> (j - i = l \<and> i < m))
      then reach R tokens i j else {})"

definition inner ::
  "(string list \<Rightarrow> rule list) \<Rightarrow> string list \<Rightarrow> nat \<Rightarrow> nat \<Rightarrow> nat \<Rightarrow> nat \<Rightarrow> nat \<Rightarrow> string set" where
  "inner R tokens l i k' i' j' =
     (if i' = i \<and> j' = i + l
      then (\<Union>k\<in>{i<..<k'}. join R (reach R tokens i k) (reach R tokens k (i + l)))
      else stage R tokens l i i' j')"

subsection \<open>What parse\_with\_backpointers computes, cell by cell\<close>

text \<open>The cell of a chart at a span (empty when the span is no key), and the value of a
  symbol in a cell of the probability chart.\<close>

definition cellf :: "'v chart \<Rightarrow> nat \<times> nat \<Rightarrow> (string \<times> 'v) list" where
  "cellf c sp = (case map_of c sp of Some cell \<Rightarrow> cell | None \<Rightarrow> [])"

definition val ::
  "'f arith \<Rightarrow> (nat \<times> nat \<Rightarrow> (string \<times> 'f) list) \<Rightarrow> nat \<times> nat \<Rightarrow> string \<Rightarrow> 'f" where
  "val ar cf sp a = (case map_of (cf sp) a of Some v \<Rightarrow> v | None \<Rightarrow> neg_inf ar)"

text \<open>
  A candidate for the span \<open>(i, j)\<close> is \<open>(l, x, k, y, prob)\<close>: a rule \<open>l -> x y\<close>, a split
  point \<open>k\<close> and the score \<open>log2(p) + pb[(i,k)][x] + pb[(k,j)][y]\<close>. \<open>cands\<close> lists the
  candidates in the order of the four nested loops: split points upwards, the keys of
  the left cell in their order, the keys of the right cell in their order, the rules
  of \<open>rhs_to_rules[(x, y)]\<close> in their order.
\<close>

type_synonym 'f cand = "string \<times> string \<times> nat \<times> string \<times> 'f"

definition rule_cands ::
  "'f arith \<Rightarrow> (string list \<Rightarrow> rule list) \<Rightarrow> (nat \<times> nat \<Rightarrow> (string \<times> 'f) list) \<Rightarrow> nat \<Rightarrow> nat \<Rightarrow> nat
     \<Rightarrow> string \<Rightarrow> string \<Rightarrow> 'f cand list" where
  "rule_cands ar R cf i j k x y =
     map (\<lambda>(l, _, p).
            (l, x, k, y,
             add_op ar (add_op ar (log2_op ar p) (val ar cf (i, k) x)) (val ar cf (k, j) y)))
       (R [x, y])"

definition left_cands ::
  "'f arith \<Rightarrow> (string list \<Rightarrow> rule list) \<Rightarrow> (nat \<times> nat \<Rightarrow> (string \<times> 'f) list) \<Rightarrow> nat \<Rightarrow> nat \<Rightarrow> nat
     \<Rightarrow> string \<Rightarrow> 'f cand list" where
  "left_cands ar R cf i j k x = concat (map (rule_cands ar R cf i j k x) (map fst (cf (k, j))))"

definition split_cands ::
  "'f arith \<Rightarrow> (string list \<Rightarrow> rule list) \<Rightarrow> (nat \<times> nat \<Rightarrow> (string \<times> 'f) list) \<Rightarrow> nat \<Rightarrow> nat \<Rightarrow> nat
     \<Rightarrow> 'f cand list" where
  "split_cands ar R cf i j k = concat (map (left_cands ar R cf i j k) (map fst (cf (i, k))))"

definition cands ::
  "'f arith \<Rightarrow> (string list \<Rightarrow> rule list) \<Rightarrow> (nat \<times> nat \<Rightarrow> (string \<times> 'f) list) \<Rightarrow> nat \<Rightarrow> nat
     \<Rightarrow> 'f cand list" where
  "cands ar R cf i j = concat (map (split_cands ar R cf i j) [i + 1..<j])"

text \<open>The two cells of a span: initialised for every left-hand side of a candidate, then
  updated by each candidate whose score is greater than the stored one.\<close>

type_synonym 'f cells = "(string \<times> backpointer) list \<times> (string \<times> 'f) list"

definition init_step :: "'f arith \<Rightarrow> string \<Rightarrow> 'f cells \<Rightarrow> 'f cells" where
  "init_step ar l = (\<lambda>(tc, pc). (AList.update l Sentinel tc, AList.update l (neg_inf ar) pc))"

definition cstep :: "'f arith \<Rightarrow> nat \<Rightarrow> nat \<Rightarrow> 'f cand \<Rightarrow> 'f cells \<Rightarrow> 'f cells" where
  "cstep ar i j = (\<lambda>(l, x, k, y, s) (tc, pc).
     (case map_of pc l of
        Some cur \<Rightarrow>
          if gt_op ar s cur
          then (AList.update l (Split (x, i, k) (y, k, j)) tc, AList.update l s pc)
          else (tc, pc)
      | None \<Rightarrow> (tc, pc)))"

definition span_cells ::
  "'f arith \<Rightarrow> (string list \<Rightarrow> rule list) \<Rightarrow> (nat \<times> nat \<Rightarrow> (string \<times> 'f) list) \<Rightarrow> nat \<Rightarrow> nat
     \<Rightarrow> 'f cells" where
  "span_cells ar R cf i j =
     fold (cstep ar i j) (cands ar R cf i j)
       (fold (init_step ar) (map fst (cands ar R cf i j)) ([], []))"

text \<open>The two cells of a one-token span: one write per pair \<open>(lhs, prob)\<close> of the set
  \<open>init[i]\<close>, in its iteration order.\<close>

definition base_pairs ::
  "((string \<times> real) list \<Rightarrow> (string \<times> real) list) \<Rightarrow> (string list \<Rightarrow> rule list) \<Rightarrow> string
     \<Rightarrow> (string \<times> real) list" where
  "base_pairs so R tok = so (map (\<lambda>(j, _, p). (j, p)) (R [tok]))"

definition bstep :: "'f arith \<Rightarrow> string \<Rightarrow> string \<times> real \<Rightarrow> 'f cells \<Rightarrow> 'f cells" where
  "bstep ar tok =
     (\<lambda>(a, b) (tc, pc). (AList.update a (Leaf tok) tc, AList.update a (log2_op ar b) pc))"

definition base_cells ::
  "'f arith \<Rightarrow> ((string \<times> real) list \<Rightarrow> (string \<times> real) list) \<Rightarrow> (string list \<Rightarrow> rule list)
     \<Rightarrow> string \<Rightarrow> 'f cells" where
  "base_cells ar so R tok = fold (bstep ar tok) (base_pairs so R tok) ([], [])"

text \<open>
  \<open>chart_ok\<close>: the charts have exactly the spans \<open>(i, j)\<close> with \<open>0 \<le> i < j \<le> n\<close> as
  keys, the cells of the one-token spans are the base cells and the cell of every
  longer span is computed from the cells of its parts. \<open>filled\<close> is the same for the
  spans done so far: those shorter than \<open>l\<close> and those of length \<open>l\<close> starting before
  \<open>m\<close>.
\<close>

definition done_span :: "nat \<Rightarrow> nat \<Rightarrow> nat \<Rightarrow> nat \<times> nat \<Rightarrow> bool" where
  "done_span n l m = (\<lambda>(i, j). i < j \<and> j \<le> n \<and> (j - i < l \<or> (j - i = l \<and> i < m)))"

definition filled ::
  "'f arith \<Rightarrow> ((string \<times> real) list \<Rightarrow> (string \<times> real) list) \<Rightarrow> (string list \<Rightarrow> rule list)
     \<Rightarrow> string list \<Rightarrow> nat \<Rightarrow> nat \<Rightarrow> 'f charts \<Rightarrow> bool" where
  "filled ar so R tokens l m = (\<lambda>(tb, pb).
     (\<forall>sp. (map_of tb sp \<noteq> None) = done_span (length tokens) l m sp)
     \<and> (\<forall>sp. (map_of pb sp \<noteq> None) = done_span (length tokens) l m sp)
     \<and> (\<forall>i j. done_span (length tokens) l m (i, j) \<longrightarrow>
          (cellf tb (i, j), cellf pb (i, j))
            = (if j = i + 1 then base_cells ar so R (tokens ! i)
               else span_cells ar R (cellf pb) i j)))"

definition chart_ok ::
  "'f arith \<Rightarrow> ((string \<times> real) list \<Rightarrow> (string \<times> real) list) \<Rightarrow> (string list \<Rightarrow> rule list)
     \<Rightarrow> string list \<Rightarrow> 'f charts \<Rightarrow> bool" where
  "chart_ok ar so R tokens = filled ar so R tokens (length tokens + 1) 0"

text \<open>The only exception of a run: \<open>math.log2\<close> on a rule probability that is not
  positive.\<close>

definition bad_prob :: "(string list \<Rightarrow> rule list) \<Rightarrow> error \<Rightarrow> bool" where
  "bad_prob R e = (e = ValueError \<and> (\<exists>key l rhs p. (l, rhs, p) \<in> set (R key) \<and> p \<le> 0))"

text \<open>\<open>chart_at c c0 sp cell\<close>: the chart \<open>c\<close> is \<open>c0\<close> with the cell \<open>cell\<close> at the span \<open>sp\<close>.\<close>

definition chart_at :: "'v chart \<Rightarrow> 'v chart \<Rightarrow> nat \<times> nat \<Rightarrow> (string \<times> 'v) list \<Rightarrow> bool" where
  "chart_at c c0 sp cell = (map_of c = (map_of c0)(sp \<mapsto> cell))"

text \<open>\<open>cells_at sp c0 cs\<close>: the charts are \<open>c0\<close> with the two cells \<open>cs\<close> at the span \<open>sp\<close>.\<close>

definition cells_at :: "nat \<times> nat \<Rightarrow> 'f charts \<Rightarrow> 'f cells \<Rightarrow> 'f charts \<Rightarrow> bool" where
  "cells_at sp c0 cs = (\<lambda>(tb, pb). chart_at tb (fst c0) sp (fst cs) \<and> chart_at pb (snd c0) sp (snd cs))"

text \<open>\<open>span_inv\<close>: while a span is being filled, its two cells are \<open>cs\<close> and the
  probability cell has every left-hand side of \<open>Ls\<close> as a key.\<close>

definition span_inv ::
  "nat \<times> nat \<Rightarrow> 'f charts \<Rightarrow> string set \<Rightarrow> 'f cells \<Rightarrow> 'f charts \<Rightarrow> bool" where
  "span_inv sp c0 Ls cs s = (cells_at sp c0 cs s \<and> Ls \<subseteq> fst ` set (snd cs))"

definition cand_of ::
  "'f arith \<Rightarrow> (nat \<times> nat \<Rightarrow> (string \<times> 'f) list) \<Rightarrow> nat \<Rightarrow> nat \<Rightarrow> nat \<Rightarrow> string \<Rightarrow> string \<Rightarrow> rule
     \<Rightarrow> 'f cand" where
  "cand_of ar cf i j k x y = (\<lambda>(l, _, p).
     (l, x, k, y, add_op ar (add_op ar (log2_op ar p) (val ar cf (i, k) x)) (val ar cf (k, j) y)))"

text \<open>
  What the loop over the candidates does to one left-hand side: the pair of the stored
  backpointer and score is replaced by a candidate's exactly when the candidate's score
  is greater than the stored score.
\<close>

definition kstep ::
  "'f arith \<Rightarrow> nat \<Rightarrow> nat \<Rightarrow> 'f cand \<Rightarrow> backpointer \<times> 'f \<Rightarrow> backpointer \<times> 'f" where
  "kstep ar i j = (\<lambda>(l, x, k, y, s) (bp, cur).
     if gt_op ar s cur then (Split (x, i, k) (y, k, j), s) else (bp, cur))"

definition score :: "'f cand \<Rightarrow> 'f" where
  "score = (\<lambda>(l, x, k, y, s). s)"

definition split_of :: "nat \<Rightarrow> nat \<Rightarrow> 'f cand \<Rightarrow> backpointer" where
  "split_of i j = (\<lambda>(l, x, k, y, s). Split (x, i, k) (y, k, j))"

definition cands_for ::
  "'f arith \<Rightarrow> (string list \<Rightarrow> rule list) \<Rightarrow> (nat \<times> nat \<Rightarrow> (string \<times> 'f) list) \<Rightarrow> nat \<Rightarrow> nat
     \<Rightarrow> string \<Rightarrow> 'f cand list" where
  "cands_for ar R cf i j l = filter (\<lambda>c. fst c = l) (cands ar R cf i j)"

text \<open>
  When the first-kept candidate is the first of greatest score: on the values \<open>S\<close> the
  test \<open>>\<close> is a strict weak order, as it is on floats other than NaN.
\<close>

definition weak_order_on :: "'f arith \<Rightarrow> 'f set \<Rightarrow> bool" where
  "weak_order_on ar S =
     ((\<forall>a\<in>S. \<not> gt_op ar a a)
      \<and> (\<forall>a\<in>S. \<forall>b\<in>S. \<forall>c\<in>S. gt_op ar a b \<and> gt_op ar b c \<longrightarrow> gt_op ar a c)
      \<and> (\<forall>a\<in>S. \<forall>b\<in>S. \<forall>c\<in>S. \<not> gt_op ar a b \<and> \<not> gt_op ar b c \<longrightarrow> \<not> gt_op ar a c))"

definition finite_cell :: "(string \<times> pyfloat) list \<Rightarrow> bool" where
  "finite_cell cell = (\<forall>a. map_of cell a \<noteq> Some NegInf)"

text \<open>Every rule probability is positive, so that \<open>math.log2\<close> is defined on it.\<close>

definition all_positive :: "Pcfg \<Rightarrow> bool" where
  "all_positive G =
     (\<forall>key l rhs p. (l, rhs, p) \<in> set (rules_of (rhs_to_rules G) key) \<longrightarrow> 0 < p)"

text \<open>The cell of the span \<open>(0, n)\<close> of the probability chart has an entry for the
  start symbol and its score is finite; a missing span or symbol is a KeyError in
  Python and counts as no entry.\<close>

definition root_has_start :: "Pcfg \<Rightarrow> nat \<Rightarrow> pyfloat chart \<Rightarrow> bool" where
  "root_has_start G n pb =
     (case startsymbol G of
        None \<Rightarrow> False
      | Some s \<Rightarrow> (case getitem2 pb (0, n) s of
                     Inr (Fin x) \<Rightarrow> True
                   | Inr NegInf \<Rightarrow> False
                   | Inl e \<Rightarrow> False))"

text \<open>Every rule probability lies in \<open>(0, 1]\<close>.\<close>

definition probs_in_unit :: "Pcfg \<Rightarrow> bool" where
  "probs_in_unit G =
     (\<forall>key l rhs p. (l, rhs, p) \<in> set (rules_of (rhs_to_rules G) key) \<longrightarrow> 0 < p \<and> p \<le> 1)"

section \<open>Example grammars\<close>


text \<open>The grammar of the specification's example: \<open>S -> NP VP\<close>, \<open>NP -> dogs\<close>,
  \<open>VP -> bark\<close>, each with probability 1, start symbol \<open>S\<close>.\<close>

definition G0 :: Pcfg where
  "G0 = \<lparr>rhs_to_rules = [[''NP'', ''VP''] \<mapsto> [(''S'', [''NP'', ''VP''], 1)],
                           [''dogs''] \<mapsto> [(''NP'', [''dogs''], 1)],
                           [''bark''] \<mapsto> [(''VP'', [''bark''], 1)]],
          lhs_to_rules = [(''S'', [(''S'', [''NP'', ''VP''], 1)]),
                          (''NP'', [(''NP'', [''dogs''], 1)]),
                          (''VP'', [(''VP'', [''bark''], 1)])],
          startsymbol = Some ''S''\<rparr>"

text \<open>A grammar with a tie: \<open>S -> A B\<close> and \<open>S -> A C\<close>, each with probability 1/2,
  \<open>A -> a\<close>, \<open>B -> b\<close> and \<open>C -> b\<close> with probability 1. On \<open>a b\<close> the two candidates
  for \<open>S\<close> score \<open>-1\<close>. \<open>tb5\<close> and \<open>pb5\<close> are the charts of \<open>a b\<close>.\<close>

definition G5 :: Pcfg where
  "G5 = \<lparr>rhs_to_rules = [[''A'', ''B''] \<mapsto> [(''S'', [''A'', ''B''], 1 / 2)],
                           [''A'', ''C''] \<mapsto> [(''S'', [''A'', ''C''], 1 / 2)],
                           [''a''] \<mapsto> [(''A'', [''a''], 1)],
                           [''b''] \<mapsto> [(''B'', [''b''], 1), (''C'', [''b''], 1)]],
          lhs_to_rules = [(''S'', [(''S'', [''A'', ''B''], 1 / 2), (''S'', [''A'', ''C''], 1 / 2)]),
                          (''A'', [(''A'', [''a''], 1)]),
                          (''B'', [(''B'', [''b''], 1)]),
                          (''C'', [(''C'', [''b''], 1)])],
          startsymbol = Some ''S''\<rparr>"

definition tb5 :: "backpointer chart" where
  "tb5 = [((0, 1), [(''A'', Leaf ''a'')]),
          ((1, 2), [(''B'', Leaf ''b''), (''C'', Leaf ''b'')]),
          ((0, 2), [(''S'', Split (''A'', 0, 1) (''B'', 1, 2))])]"

definition pb5 :: "pyfloat chart" where
  "pb5 = [((0, 1), [(''A'', Fin 0)]),
          ((1, 2), [(''B'', Fin 0), (''C'', Fin 0)]),
          ((0, 2), [(''S'', Fin (- 1))])]"

text \<open>A grammar with a rule of probability zero: \<open>S -> a ; 1.0\<close>, \<open>S -> b ; 0.0\<close>.\<close>

definition G3 :: Pcfg where
  "G3 = \<lparr>rhs_to_rules = [[''a''] \<mapsto> [(''S'', [''a''], 1)],
                           [''b''] \<mapsto> [(''S'', [''b''], 0)]],
          lhs_to_rules = [(''S'', [(''S'', [''a''], 1), (''S'', [''b''], 0)])],
          startsymbol = Some ''S''\<rparr>"

text \<open>The charts of \<open>dogs bark\<close> under \<open>G0\<close>.\<close>

definition tb_G0 :: "backpointer chart" where
  "tb_G0 = [((0, 1), [(''NP'', Leaf ''dogs'')]),
          ((1, 2), [(''VP'', Leaf ''bark'')]),
          ((0, 2), [(''S'', Split (''NP'', 0, 1) (''VP'', 1, 2))])]"

definition pb_G0 :: "pyfloat chart" where
  "pb_G0 = [((0, 1), [(''NP'', Fin 0)]),
          ((1, 2), [(''VP'', Fin 0)]),
          ((0, 2), [(''S'', Fin 0)])]"

text \<open>A grammar with two rules \<open>A -> x\<close> of different probability:
  \<open>A -> x ; 0.5\<close>, \<open>A -> x ; 0.25\<close>, \<open>A -> y ; 0.25\<close>.\<close>

definition G1 :: Pcfg where
  "G1 = \<lparr>rhs_to_rules = [[''x''] \<mapsto> [(''A'', [''x''], 1 / 2), (''A'', [''x''], 1 / 4)],
                           [''y''] \<mapsto> [(''A'', [''y''], 1 / 4)]],
          lhs_to_rules = [(''A'', [(''A'', [''x''], 1 / 2), (''A'', [''x''], 1 / 4),
                                   (''A'', [''y''], 1 / 4)])],
          startsymbol = Some ''A''\<rparr>"

section \<open>Results on verify\_grammar\<close>










section \<open>Reasoning about computations\<close>

lemma ext_refl: "ext d d"
  by (simp add: ext_def)

lemma ext_trans: "ext d d' \<Longrightarrow> ext d' d'' \<Longrightarrow> ext d d''"
  unfolding ext_def
proof (intro allI)
  fix key
  assume a: "\<forall>key. d' key = d key \<or> d key = None \<and> d' key = Some []"
    and b: "\<forall>key. d'' key = d' key \<or> d' key = None \<and> d'' key = Some []"
  from a have "d' key = d key \<or> d key = None \<and> d' key = Some []" by blast
  moreover from b have "d'' key = d' key \<or> d' key = None \<and> d'' key = Some []" by blast
  ultimately show "d'' key = d key \<or> d key = None \<and> d'' key = Some []" by auto
qed

lemma ext_rules_of: "ext d d' \<Longrightarrow> rules_of d' = rules_of d"
proof
  fix key
  assume "ext d d'"
  then have "d' key = d key \<or> d key = None \<and> d' key = Some []"
    by (simp add: ext_def)
  then show "rules_of d' key = rules_of d key"
    by (auto simp: rules_of_def)
qed

lemma ensures_Inr [simp]: "ensures (Inr a) P Q = P a"
  by (simp add: ensures_def)

lemma ensures_Inl [simp]: "ensures (Inl e) P Q = Q e"
  by (simp add: ensures_def)

lemma ensures_bindE:
  "ensures r P' Q \<Longrightarrow> (\<And>a. P' a \<Longrightarrow> ensures (f a) P Q) \<Longrightarrow> ensures (bindE r f) P Q"
  by (cases r) (auto simp: bindE_def)

lemma ensures_weaken:
  "ensures r P' Q' \<Longrightarrow> (\<And>a. P' a \<Longrightarrow> P a) \<Longrightarrow> (\<And>e. Q' e \<Longrightarrow> Q e) \<Longrightarrow> ensures r P Q"
  by (cases r) auto

lemma ensuresM_return: "P a \<Longrightarrow> ensuresM R (returnM a) P Q"
  by (simp add: ensuresM_def returnM_def ext_refl)

lemma ensuresM_liftE: "ensures r P Q \<Longrightarrow> ensuresM R (liftE r) P Q"
  by (simp add: ensuresM_def liftE_def ext_refl)

lemma ensuresM_lookup: "P (R key) \<Longrightarrow> ensuresM R (lookup_rules key) P Q"
  by (auto simp: ensuresM_def lookup_rules_def getitem_default_def rules_of_def ext_def
      split: option.splits)

lemma ensuresM_bind:
  assumes m: "ensuresM R m P' Q"
    and f: "\<And>a. P' a \<Longrightarrow> ensuresM R (f a) P Q"
  shows "ensuresM R (bindM m f) P Q"
  unfolding ensuresM_def
proof (intro allI impI)
  fix d
  assume d: "rules_of d = R"
  from m d have md: "ensures (fst (m d)) P' Q" "ext d (snd (m d))"
    by (auto simp: ensuresM_def)
  show "ensures (fst (bindM m f d)) P Q \<and> ext d (snd (bindM m f d))"
  proof (cases "fst (m d)")
    case (Inl e)
    then have "bindM m f d = (Inl e, snd (m d))"
      by (cases "m d") (simp add: bindM_def)
    with md Inl show ?thesis by simp
  next
    case (Inr a)
    then have eq: "bindM m f d = f a (snd (m d))"
      by (cases "m d") (simp add: bindM_def)
    from md Inr have "P' a" by simp
    moreover have "rules_of (snd (m d)) = R"
      using md(2) d by (simp add: ext_rules_of)
    ultimately have "ensures (fst (f a (snd (m d)))) P Q" "ext (snd (m d)) (snd (f a (snd (m d))))"
      using f [of a] by (auto simp: ensuresM_def)
    with md(2) eq show ?thesis by (auto intro: ext_trans)
  qed
qed

lemma ensuresM_weaken:
  "ensuresM R m P' Q' \<Longrightarrow> (\<And>a. P' a \<Longrightarrow> P a) \<Longrightarrow> (\<And>e. Q' e \<Longrightarrow> Q e) \<Longrightarrow> ensuresM R m P Q"
  unfolding ensuresM_def by (blast intro: ensures_weaken)

text \<open>A loop whose body extends a trace: \<open>I tr a\<close> relates the loop variables to the list
  of what has been processed.\<close>

lemma ensuresM_forM:
  assumes "I tr a"
    and "\<And>x tr a. x \<in> set xs \<Longrightarrow> I tr a \<Longrightarrow> ensuresM R (body x a) (I (tr @ g x)) Q"
  shows "ensuresM R (forM xs body a) (I (tr @ concat (map g xs))) Q"
  using assms
proof (induction xs arbitrary: tr a)
  case Nil
  then show ?case by (simp add: ensuresM_return)
next
  case (Cons x xs)
  have "ensuresM R (bindM (body x a) (forM xs body)) (I ((tr @ g x) @ concat (map g xs))) Q"
  proof (rule ensuresM_bind)
    show "ensuresM R (body x a) (I (tr @ g x)) Q"
      using Cons.prems by simp
  next
    fix a'
    assume "I (tr @ g x) a'"
    then show "ensuresM R (forM xs body a') (I ((tr @ g x) @ concat (map g xs))) Q"
      using Cons.prems(2) by (intro Cons.IH) auto
  qed
  then show ?case by simp
qed

text \<open>A loop over a range with an invariant on the next index.\<close>

lemma ensuresM_forM_upt:
  assumes "I lo a" and "lo \<le> hi"
    and "\<And>x a. lo \<le> x \<Longrightarrow> x < hi \<Longrightarrow> I x a \<Longrightarrow> ensuresM R (body x a) (I (Suc x)) Q"
  shows "ensuresM R (forM [lo..<hi] body a) (I hi) Q"
  using assms
proof (induction "hi - lo" arbitrary: lo a)
  case 0
  then show ?case by (simp add: ensuresM_return)
next
  case (Suc n)
  then have lt: "lo < hi" by simp
  then have eq: "[lo..<hi] = lo # [Suc lo..<hi]" by (simp add: upt_rec)
  have "ensuresM R (bindM (body lo a) (forM [Suc lo..<hi] body)) (I hi) Q"
  proof (rule ensuresM_bind)
    show "ensuresM R (body lo a) (I (Suc lo)) Q"
      using Suc.prems lt by simp
  next
    fix a'
    assume "I (Suc lo) a'"
    then show "ensuresM R (forM [Suc lo..<hi] body a') (I hi) Q"
      using Suc.hyps(2) Suc.prems(3) lt by (intro Suc.hyps(1)) auto
  qed
  then show ?case by (simp add: eq)
qed

section \<open>The engines and the grammar object\<close>

lemmas eval_defs = bindM_def returnM_def liftE_def bindE_def lookup_rules_def getitem_default_def
  getidx_def getidx2_def setidx2_def getlast_def getitem_def setitem_def getitem2_def
  setitem2_def cell_keys_def log2_def exact_def Let_def

text \<open>
  C6. On the empty token sequence \<open>parse_with_backpointers\<close> returns two empty charts,
  but \<open>is_in_language\<close> does not return \<open>False\<close>: \<open>pi\<close> is the empty list and
  \<open>pi[0]\<close> raises IndexError.
\<close>

theorem empty_tokens:
  "fst (is_in_language so G []) = Inl IndexError
   \<and> fst (parse_with_backpointers ar so' G []) = Inr ([], [])"
  by (simp add: is_in_language_def is_in_language_run_def parse_with_backpointers_def
      parse_run_def eval_defs)

lemma frame_bind:
  "ensuresM R m (\<lambda>_. True) (\<lambda>_. True) \<Longrightarrow> (\<And>a. ensuresM R (f a) (\<lambda>_. True) (\<lambda>_. True))
   \<Longrightarrow> ensuresM R (bindM m f) (\<lambda>_. True) (\<lambda>_. True)"
  by (rule ensuresM_bind)

lemma frame_forM:
  assumes "\<And>x a. ensuresM R (body x a) (\<lambda>_. True) (\<lambda>_. True)"
  shows "ensuresM R (forM xs body a) (\<lambda>_. True) (\<lambda>_. True)"
  using ensuresM_forM [where I = "\<lambda>_ _. True" and tr = "[]" and g = "\<lambda>_. []" and Q = "\<lambda>_. True"
      and R = R and body = body and xs = xs and a = a] assms
  by simp

lemma frame_liftE: "ensuresM R (liftE r) (\<lambda>_. True) (\<lambda>_. True)"
  by (rule ensuresM_liftE) (simp add: ensures_def split: sum.splits)

lemma frame_lookup: "ensuresM R (lookup_rules key) (\<lambda>_. True) (\<lambda>_. True)"
  by (rule ensuresM_lookup) simp

lemma frame_return: "ensuresM R (returnM a) (\<lambda>_. True) (\<lambda>_. True)"
  by (rule ensuresM_return) simp

lemmas frame_rules = frame_bind frame_forM frame_liftE frame_lookup frame_return

lemma frame_is_in_language_run:
  "ensuresM R (is_in_language_run so start tokens) (\<lambda>_. True) (\<lambda>_. True)"
  unfolding is_in_language_run_def split_step_def Let_def split_def
  by (intro frame_rules)

lemma frame_parse_run: "ensuresM R (parse_run ar so tokens) (\<lambda>_. True) (\<lambda>_. True)"
  unfolding parse_run_def span_step_def base_step_def Let_def split_def
  by (intro frame_rules)

lemma frame_grammar_kept:
  assumes "ensuresM (rules_of (rhs_to_rules G)) m (\<lambda>_. True) (\<lambda>_. True)"
  shows "grammar_kept G (G\<lparr>rhs_to_rules := snd (m (rhs_to_rules G))\<rparr>)"
  using assms by (simp add: ensuresM_def grammar_kept_def ext_rules_of)

text \<open>
  C7, as the code has it. After \<open>is_in_language\<close> or \<open>parse_with_backpointers\<close>,
  whether it returned or raised, the start symbol and \<open>lhs_to_rules\<close> are as before and
  every key of \<open>rhs_to_rules\<close> keeps its list; a right-hand side that was looked up and
  was not a key has become a key with the empty list, so every lookup gives the same
  rules as before.
\<close>

theorem grammar_kept_by_engines:
  "grammar_kept G (snd (is_in_language so G tokens))
   \<and> grammar_kept G (snd (parse_with_backpointers ar so' G tokens))"
  using frame_grammar_kept [OF frame_is_in_language_run, of G so "startsymbol G" tokens]
    frame_grammar_kept [OF frame_parse_run, of G ar so' tokens]
  by (simp add: is_in_language_def parse_with_backpointers_def split_def)

text \<open>
  C7 as stated fails: \<open>cats\<close> is no right-hand side of \<open>G0\<close>, and after
  \<open>is_in_language(["cats"])\<close> the tuple \<open>("cats",)\<close> is a key of \<open>rhs_to_rules\<close>.
\<close>

theorem grammar_key_added_counterexample:
  "rhs_to_rules G0 [''cats''] = None
   \<and> rhs_to_rules (snd (is_in_language remdups G0 [''cats''])) [''cats''] = Some []
   \<and> dom (rhs_to_rules (snd (is_in_language remdups G0 [''cats'']))) \<noteq> dom (rhs_to_rules G0)"
proof -
  have a: "rhs_to_rules G0 [''cats''] = None" by (simp add: G0_def)
  have b: "rhs_to_rules (snd (is_in_language remdups G0 [''cats''])) [''cats''] = Some []"
    by (simp add: is_in_language_def is_in_language_run_def G0_def eval_defs)
  from a b have "[''cats''] \<in> dom (rhs_to_rules (snd (is_in_language remdups G0 [''cats''])))"
    "[''cats''] \<notin> dom (rhs_to_rules G0)" by auto
  then have "dom (rhs_to_rules (snd (is_in_language remdups G0 [''cats'']))) \<noteq> dom (rhs_to_rules G0)"
    by metis
  with a b show ?thesis by simp
qed

section \<open>The backpointer-chart validator\<close>

text \<open>
  C9. The key test negates only \<open>isinstance(split, tuple)\<close>, so no tuple is ever
  rejected as a key: the table \<open>{(1, 2, 3): {}}\<close>, whose key is a 3-tuple, passes with
  no message. On the integer key of \<open>{5: {}}\<close> the test evaluates \<open>len(5)\<close> and
  raises TypeError.
\<close>

theorem check_table_format_tuple_key:
  "\<not> is_span_key (PTuple [PInt 1, PInt 2, PInt 3])
   \<and> check_table_format (PDict [(PTuple [PInt 1, PInt 2, PInt 3], PDict [])]) = ([], Inr True)
   \<and> \<not> is_span_key (PInt 5)
   \<and> check_table_format (PDict [(PInt 5, PDict [])]) = ([], Inl TypeError)"
  by (simp add: check_table_format_def bad_span_key_def bindE_def)

section \<open>Derivations and spans\<close>

lemma length_slice: "j \<le> length xs \<Longrightarrow> length (slice xs i j) = j - i"
  by (simp add: slice_def)

lemma slice_single: "i < length xs \<Longrightarrow> slice xs i (Suc i) = [xs ! i]"
  by (simp add: slice_def take_Suc_conv_app_nth [of 0] hd_drop_conv_nth take_Suc)

lemma slice_append:
  assumes "i \<le> k" "k \<le> j"
  shows "slice xs i j = slice xs i k @ slice xs k j"
proof -
  have "take (j - i) (drop i xs) = take (k - i) (drop i xs) @ take (j - k) (drop (k - i) (drop i xs))"
    using assms take_add [of "k - i" "j - k" "drop i xs"] by simp
  then show ?thesis using assms by (simp add: slice_def)
qed

lemma slice_split:
  assumes "slice xs i j = u @ v" "j \<le> length xs" "i \<le> j"
  shows "u = slice xs i (i + length u) \<and> v = slice xs (i + length u) j \<and> i + length u + length v = j"
proof -
  have len: "length u + length v = j - i"
    using assms length_slice [of j xs i] by (metis length_append)
  then have k: "i \<le> i + length u" "i + length u \<le> j" using assms by auto
  have "slice xs i j = slice xs i (i + length u) @ slice xs (i + length u) j"
    using slice_append [OF k] .
  moreover have "length (slice xs i (i + length u)) = length u"
    using k assms by (simp add: length_slice)
  ultimately show ?thesis using assms(1) len k assms(3) by (auto simp: append_eq_append_conv)
qed

lemma derives_nonempty: "derives R A w \<Longrightarrow> w \<noteq> []"
  by (induction rule: derives.induct) auto

lemma derives_single: "derives R A [t] = (A \<in> fst ` set (R [t]))"
proof
  assume "derives R A [t]"
  then show "A \<in> fst ` set (R [t])"
  proof (cases rule: derives.cases)
    case (unary rhs p)
    then show ?thesis by force
  next
    case (binary rhs p B C u v)
    then have "u \<noteq> []" "v \<noteq> []" by (auto dest: derives_nonempty)
    with binary(1) show ?thesis by (cases u; cases v) auto
  qed
next
  assume "A \<in> fst ` set (R [t])"
  then show "derives R A [t]" by (auto intro: derives.unary)
qed

lemma derives_long:
  assumes "2 \<le> length w"
  shows "derives R A w =
    (\<exists>B C u v. w = u @ v \<and> A \<in> fst ` set (R [B, C]) \<and> derives R B u \<and> derives R C v)"
proof
  assume "derives R A w"
  then show "\<exists>B C u v. w = u @ v \<and> A \<in> fst ` set (R [B, C]) \<and> derives R B u \<and> derives R C v"
  proof (cases rule: derives.cases)
    case (unary rhs p t)
    with assms show ?thesis by simp
  next
    case (binary rhs p B C u v)
    then have "A \<in> fst ` set (R [B, C])" by force
    with binary show ?thesis by blast
  qed
next
  assume "\<exists>B C u v. w = u @ v \<and> A \<in> fst ` set (R [B, C]) \<and> derives R B u \<and> derives R C v"
  then show "derives R A w" by (auto intro: derives.binary)
qed

lemma reach_base:
  assumes "i < length tokens"
  shows "reach R tokens i (Suc i) = fst ` set (R [tokens ! i])"
  using assms by (auto simp: reach_def slice_single derives_single)

lemma reach_step:
  assumes "i + 2 \<le> j" "j \<le> length tokens"
  shows "reach R tokens i j = (\<Union>k\<in>{i<..<j}. join R (reach R tokens i k) (reach R tokens k j))"
proof (intro set_eqI iffI)
  fix A
  assume "A \<in> reach R tokens i j"
  then have d: "derives R A (slice tokens i j)" by (simp add: reach_def)
  have "2 \<le> length (slice tokens i j)" using assms by (simp add: length_slice)
  from d [unfolded derives_long [OF this]]
  obtain B C u v where w: "slice tokens i j = u @ v" and r: "A \<in> fst ` set (R [B, C])"
    and u: "derives R B u" and v: "derives R C v" by blast
  from u v have ne: "u \<noteq> []" "v \<noteq> []" by (auto dest: derives_nonempty)
  from slice_split [OF w assms(2)] assms(1)
  have s: "u = slice tokens i (i + length u)" "v = slice tokens (i + length u) j"
    "i + length u + length v = j" by auto
  from ne s(3) have k: "i + length u \<in> {i<..<j}" by auto
  from u v s(1,2) have "B \<in> reach R tokens i (i + length u)" "C \<in> reach R tokens (i + length u) j"
    by (auto simp: reach_def)
  with r have "A \<in> join R (reach R tokens i (i + length u)) (reach R tokens (i + length u) j)"
    by (auto simp: join_def)
  with k show "A \<in> (\<Union>k\<in>{i<..<j}. join R (reach R tokens i k) (reach R tokens k j))" by blast
next
  fix A
  assume "A \<in> (\<Union>k\<in>{i<..<j}. join R (reach R tokens i k) (reach R tokens k j))"
  then obtain k B C rhs p where k: "i < k" "k < j" and B: "derives R B (slice tokens i k)"
    and C: "derives R C (slice tokens k j)" and r: "(A, rhs, p) \<in> set (R [B, C])"
    by (auto simp: join_def reach_def)
  from derives.binary [OF r B C] k
  show "A \<in> reach R tokens i j"
    by (simp add: reach_def slice_append [of i k j])
qed

section \<open>The recognition engine\<close>

lemma getidx2_tab: "tab pi' n E \<Longrightarrow> i < n \<Longrightarrow> j \<le> n \<Longrightarrow> getidx2 pi' i j = Inr (pi' ! i ! j)"
  by (simp add: tab_def getidx2_def getidx_def bindE_def)

lemma setidx2_tab:
  assumes "tab pi' n E" "i < n" "j \<le> n"
  shows "\<exists>p. setidx2 pi' i j v = Inr p
            \<and> tab p n (\<lambda>i' j'. if i' = i \<and> j' = j then set v else E i' j')"
proof -
  have "setidx2 pi' i j v = Inr (pi'[i := (pi' ! i)[j := v]])"
    using assms by (simp add: tab_def setidx2_def getidx_def bindE_def)
  moreover have "tab (pi'[i := (pi' ! i)[j := v]]) n (\<lambda>i' j'. if i' = i \<and> j' = j then set v else E i' j')"
    using assms unfolding tab_def by (auto simp: nth_list_update)
  ultimately show ?thesis by blast
qed

lemma ensuresM_collect:
  "ensuresM R (forM xs (\<lambda>x acc. bindM (lookup_rules (key x)) (\<lambda>rules. returnM (acc @ f x rules))) ini)
     (\<lambda>r. r = ini @ concat (map (\<lambda>x. f x (R (key x))) xs)) Q"
proof -
  have "ensuresM R (forM xs (\<lambda>x acc. bindM (lookup_rules (key x)) (\<lambda>rules. returnM (acc @ f x rules))) ini)
     ((\<lambda>tr r. r = ini @ tr) ([] @ concat (map (\<lambda>x. f x (R (key x))) xs))) Q"
  proof (rule ensuresM_forM)
    show "ini = ini @ []" by simp
  next
    fix x tr a
    assume "a = ini @ tr"
    then show "ensuresM R (bindM (lookup_rules (key x)) (\<lambda>rules. returnM (a @ f x rules)))
                 (\<lambda>r. r = ini @ tr @ f x (R (key x))) Q"
      by (intro ensuresM_bind [where P' = "\<lambda>rules. rules = R (key x)"] ensuresM_lookup
          ensuresM_return) auto
  qed
  then show ?thesis by simp
qed

lemma split_step_tab:
  assumes so: "set_order so" and t: "tab pi' n E" and b: "i < n" "k < n" "j \<le> n"
  shows "ensuresM R (split_step so i j k pi')
           (\<lambda>p. tab p n (\<lambda>i' j'. if i' = i \<and> j' = j then E i j \<union> join R (E i k) (E k j) else E i' j'))
           (\<lambda>_. False)"
proof -
  let ?bs = "pi' ! i ! k" and ?cs = "pi' ! k ! j"
  let ?M = "concat (map (\<lambda>b. concat (map (\<lambda>c. map fst (R [b, c])) ?cs)) ?bs)"
  have sets: "set ?bs = E i k" "set ?cs = E k j" "set (pi' ! i ! j) = E i j"
    using t b by (auto simp: tab_def)
  have so_set: "\<And>xs. set (so xs) = set xs" using so by (simp add: set_order_def)
  have M: "set ?M = join R (E i k) (E k j)"
    by (auto simp: join_def sets [symmetric])
  have inner: "\<And>b acc. ensuresM R
        (bindM (liftE (getidx2 pi' k j)) (\<lambda>cs.
           forM cs (\<lambda>c acc. bindM (lookup_rules [b, c]) (\<lambda>rules. returnM (acc @ map fst rules))) acc))
        (\<lambda>r. r = acc @ concat (map (\<lambda>c. map fst (R [b, c])) ?cs)) (\<lambda>_. False)"
    by (rule ensuresM_bind [where P' = "\<lambda>cs. cs = ?cs"])
      (auto simp: getidx2_tab [OF t b(2,3)] intro!: ensuresM_liftE ensuresM_collect)
  have outer: "ensuresM R
        (forM ?bs (\<lambda>b acc. bindM (liftE (getidx2 pi' k j)) (\<lambda>cs.
           forM cs (\<lambda>c acc. bindM (lookup_rules [b, c]) (\<lambda>rules. returnM (acc @ map fst rules))) acc)) [])
        (\<lambda>r. r = ?M) (\<lambda>_. False)"
    using ensuresM_forM [where I = "\<lambda>tr r. r = tr" and tr = "[]" and a = "[]" and xs = ?bs
        and g = "\<lambda>b. concat (map (\<lambda>c. map fst (R [b, c])) ?cs)" and R = R and Q = "\<lambda>_. False"
        and body = "\<lambda>b acc. bindM (liftE (getidx2 pi' k j)) (\<lambda>cs.
           forM cs (\<lambda>c acc. bindM (lookup_rules [b, c]) (\<lambda>rules. returnM (acc @ map fst rules))) acc)"]
      inner by simp
  have k_le: "k \<le> n" using b by simp
  from setidx2_tab [OF t b(1,3), of "so (pi' ! i ! j @ so ?M)"]
  obtain p where p: "setidx2 pi' i j (so (pi' ! i ! j @ so ?M)) = Inr p"
    "tab p n (\<lambda>i' j'. if i' = i \<and> j' = j then set (so (pi' ! i ! j @ so ?M)) else E i' j')"
    by blast
  have fin: "tab p n (\<lambda>i' j'. if i' = i \<and> j' = j then E i j \<union> join R (E i k) (E k j) else E i' j')"
  proof -
    have eq: "set (so (pi' ! i ! j @ so ?M)) = E i j \<union> join R (E i k) (E k j)"
      by (simp only: so_set set_append M sets)
    from p(2) show ?thesis unfolding eq .
  qed
  show ?thesis
    unfolding split_step_def
    apply (rule ensuresM_bind [where P' = "\<lambda>bs. bs = ?bs"])
     apply (simp add: getidx2_tab [OF t b(1) k_le] ensuresM_liftE)
    apply (rule ensuresM_bind [where P' = "\<lambda>r. r = ?M"])
     apply (simp add: outer)
    apply (rule ensuresM_bind [where P' = "\<lambda>old. old = pi' ! i ! j"])
     apply (simp add: getidx2_tab [OF t b(1,3)] ensuresM_liftE)
    apply (simp add: p(1) fin ensuresM_liftE)
    done
qed

lemma tab_cong: "tab p n E \<Longrightarrow> (\<And>i j. i < n \<Longrightarrow> j \<le> n \<Longrightarrow> E i j = E' i j) \<Longrightarrow> tab p n E'"
  by (simp add: tab_def)

lemma greaterThanLessThan_Suc: "i < k \<Longrightarrow> {i<..<Suc k} = insert k {i<..<k}"
  by auto

lemma k_loop:
  assumes so: "set_order so" and l: "2 \<le> l" "i + l \<le> length tokens"
    and t: "tab pi' (length tokens) (stage R tokens l i)"
  shows "ensuresM R (forM [i + 1..<i + l] (split_step so i (i + l)) pi')
           (\<lambda>p. tab p (length tokens) (stage R tokens l (Suc i))) (\<lambda>_. False)"
proof -
  let ?n = "length tokens"
  have "ensuresM R (forM [i + 1..<i + l] (split_step so i (i + l)) pi')
           (\<lambda>p. tab p ?n (inner R tokens l i (i + l))) (\<lambda>_. False)"
  proof (rule ensuresM_forM_upt [where I = "\<lambda>k p. tab p ?n (inner R tokens l i k)"])
    show "tab pi' ?n (inner R tokens l i (i + 1))"
      by (rule tab_cong [OF t]) (auto simp: inner_def stage_def)
  next
    show "i + 1 \<le> i + l" using l by simp
  next
    fix k p
    assume k: "i + 1 \<le> k" "k < i + l" and p: "tab p ?n (inner R tokens l i k)"
    have b: "i < ?n" "k < ?n" "i + l \<le> ?n" using k l by auto
    have ik: "inner R tokens l i k i k = reach R tokens i k"
      using k l by (auto simp: inner_def stage_def)
    have kj: "inner R tokens l i k k (i + l) = reach R tokens k (i + l)"
      using k l by (auto simp: inner_def stage_def)
    have ij: "inner R tokens l i k i (i + l)
                = (\<Union>k\<in>{i<..<k}. join R (reach R tokens i k) (reach R tokens k (i + l)))"
      by (simp add: inner_def)
    show "ensuresM R (split_step so i (i + l) k p)
            (\<lambda>p. tab p ?n (inner R tokens l i (Suc k))) (\<lambda>_. False)"
    proof (rule ensuresM_weaken [OF split_step_tab [OF so p b]])
      fix q
      assume "tab q ?n (\<lambda>i' j'. if i' = i \<and> j' = i + l
                 then inner R tokens l i k i (i + l)
                      \<union> join R (inner R tokens l i k i k) (inner R tokens l i k k (i + l))
                 else inner R tokens l i k i' j')"
      then show "tab q ?n (inner R tokens l i (Suc k))"
      proof (rule tab_cong)
        fix i' j'
        show "(if i' = i \<and> j' = i + l
                 then inner R tokens l i k i (i + l)
                      \<union> join R (inner R tokens l i k i k) (inner R tokens l i k k (i + l))
                 else inner R tokens l i k i' j') = inner R tokens l i (Suc k) i' j'"
          unfolding ik kj ij using k
          by (auto simp: inner_def greaterThanLessThan_Suc)
      qed
    qed simp
  qed
  then show ?thesis
  proof (rule ensuresM_weaken)
    fix p
    assume "tab p ?n (inner R tokens l i (i + l))"
    then show "tab p ?n (stage R tokens l (Suc i))"
    proof (rule tab_cong)
      fix i' j'
      assume "i' < ?n" "j' \<le> ?n"
      show "inner R tokens l i (i + l) i' j' = stage R tokens l (Suc i) i' j'"
      proof (cases "i' = i \<and> j' = i + l")
        case True
        then show ?thesis
          using reach_step [of i "i + l" tokens R] l by (simp add: inner_def stage_def)
      next
        case False
        then show ?thesis by (auto simp: inner_def stage_def)
      qed
    qed
  qed simp
qed

lemma i_loop:
  assumes so: "set_order so" and l: "2 \<le> l" "l \<le> length tokens"
    and t: "tab pi' (length tokens) (stage R tokens l 0)"
  shows "ensuresM R
           (forM [0..<length tokens - l + 1] (\<lambda>i. forM [i + 1..<i + l] (split_step so i (i + l))) pi')
           (\<lambda>p. tab p (length tokens) (stage R tokens (Suc l) 0)) (\<lambda>_. False)"
proof -
  let ?n = "length tokens"
  have "ensuresM R
           (forM [0..<?n - l + 1] (\<lambda>i. forM [i + 1..<i + l] (split_step so i (i + l))) pi')
           (\<lambda>p. tab p ?n (stage R tokens l (?n - l + 1))) (\<lambda>_. False)"
  proof (rule ensuresM_forM_upt [where I = "\<lambda>m p. tab p ?n (stage R tokens l m)"])
    show "tab pi' ?n (stage R tokens l 0)" by (rule t)
  next
    show "0 \<le> ?n - l + 1" by simp
  next
    fix i p
    assume "i < ?n - l + 1" and p: "tab p ?n (stage R tokens l i)"
    then have "i + l \<le> ?n" using l by simp
    from k_loop [OF so l(1) this p]
    show "ensuresM R (forM [i + 1..<i + l] (split_step so i (i + l)) p)
            (\<lambda>p. tab p ?n (stage R tokens l (Suc i))) (\<lambda>_. False)" .
  qed
  then show ?thesis
  proof (rule ensuresM_weaken)
    fix p
    assume "tab p ?n (stage R tokens l (?n - l + 1))"
    then show "tab p ?n (stage R tokens (Suc l) 0)"
      by (rule tab_cong) (use l in \<open>auto simp: stage_def\<close>)
  qed simp
qed

lemma l_loop:
  assumes so: "set_order so" and n: "tokens \<noteq> []"
    and t: "tab pi' (length tokens) (stage R tokens 2 0)"
  shows "ensuresM R
           (forM [2..<length tokens + 1] (\<lambda>l. forM [0..<length tokens - l + 1]
              (\<lambda>i. forM [i + 1..<i + l] (split_step so i (i + l)))) pi')
           (\<lambda>p. tab p (length tokens) (stage R tokens (length tokens + 1) 0)) (\<lambda>_. False)"
proof (cases "2 \<le> length tokens + 1")
  case True
  show ?thesis
  proof (rule ensuresM_forM_upt [where I = "\<lambda>l p. tab p (length tokens) (stage R tokens l 0)"])
    show "tab pi' (length tokens) (stage R tokens 2 0)" by (rule t)
  next
    show "2 \<le> length tokens + 1" by (rule True)
  next
    fix l p
    assume "2 \<le> l" "l < length tokens + 1" "tab p (length tokens) (stage R tokens l 0)"
    then show "ensuresM R
            (forM [0..<length tokens - l + 1] (\<lambda>i. forM [i + 1..<i + l] (split_step so i (i + l))) p)
            (\<lambda>p. tab p (length tokens) (stage R tokens (Suc l) 0)) (\<lambda>_. False)"
      by (intro i_loop [OF so]) auto
  qed
next
  case False
  with n show ?thesis by (cases tokens) auto
qed

lemma init_sets:
  "ensuresM R (forM tokens (\<lambda>i init. bindM (lookup_rules [i])
                  (\<lambda>rules. returnM (init @ [so (map fst rules)]))) [])
     (\<lambda>init. init = map (\<lambda>t. so (map fst (R [t]))) tokens) Q"
  using ensuresM_collect [where key = "\<lambda>i. [i]" and f = "\<lambda>i rules. [so (map fst rules)]"
      and ini = "[]" and xs = tokens and R = R and Q = Q]
  by (simp add: concat_map_singleton)

lemma base_loop:
  assumes so: "set_order so" and init: "init = map (\<lambda>t. so (map fst (R [t]))) tokens"
  shows "ensuresM R
     (forM [0..<length tokens] (\<lambda>i pi'. liftE (bindE (getidx init i) (\<lambda>s. setidx2 pi' i (i + 1) s)))
        (replicate (length tokens) (replicate (length tokens + 1) [])))
     (\<lambda>p. tab p (length tokens) (stage R tokens 2 0)) (\<lambda>_. False)"
proof -
  let ?n = "length tokens"
  let ?E = "\<lambda>m i' j'. if j' = Suc i' \<and> i' < m then reach R tokens i' (Suc i') else {}"
  have so_set: "\<And>xs. set (so xs) = set xs" using so by (simp add: set_order_def)
  have "ensuresM R
     (forM [0..<?n] (\<lambda>i pi'. liftE (bindE (getidx init i) (\<lambda>s. setidx2 pi' i (i + 1) s)))
        (replicate ?n (replicate (?n + 1) [])))
     (\<lambda>p. tab p ?n (?E ?n)) (\<lambda>_. False)"
  proof (rule ensuresM_forM_upt [where I = "\<lambda>m p. tab p ?n (?E m)"])
    show "tab (replicate ?n (replicate (?n + 1) [])) ?n (?E 0)"
      by (auto simp: tab_def nth_Cons')
  next
    show "0 \<le> ?n" by simp
  next
    fix i p
    assume i: "i < ?n" and p: "tab p ?n (?E i)"
    have g: "getidx init i = Inr (so (map fst (R [tokens ! i])))"
      using i init by (simp add: getidx_def)
    from i have "i + 1 \<le> ?n" by simp
    from setidx2_tab [OF p i this, of "so (map fst (R [tokens ! i]))"]
    obtain q where q: "setidx2 p i (i + 1) (so (map fst (R [tokens ! i]))) = Inr q"
      "tab q ?n (\<lambda>i' j'. if i' = i \<and> j' = i + 1 then set (so (map fst (R [tokens ! i])))
                          else ?E i i' j')" by blast
    have "tab q ?n (?E (Suc i))"
      by (rule tab_cong [OF q(2)]) (use i in \<open>auto simp: so_set reach_base\<close>)
    then show "ensuresM R (liftE (bindE (getidx init i) (\<lambda>s. setidx2 p i (i + 1) s)))
                 (\<lambda>p. tab p ?n (?E (Suc i))) (\<lambda>_. False)"
      using q(1) by (simp add: g bindE_def ensuresM_liftE)
  qed
  then show ?thesis
  proof (rule ensuresM_weaken)
    fix p
    assume "tab p ?n (?E ?n)"
    then show "tab p ?n (stage R tokens 2 0)"
      by (rule tab_cong) (auto simp: stage_def)
  qed simp
qed

lemma slice_all: "slice xs 0 (length xs) = xs"
  by (simp add: slice_def)

lemma is_in_language_run_correct:
  assumes so: "set_order so" and n: "tokens \<noteq> []"
  shows "ensuresM R (is_in_language_run so start tokens)
           (\<lambda>b. b = (case start of None \<Rightarrow> False | Some s \<Rightarrow> derives R s tokens)) (\<lambda>_. False)"
proof -
  let ?n = "length tokens"
  have fin: "\<And>p. tab p ?n (stage R tokens (?n + 1) 0) \<Longrightarrow>
     bindE (getidx p 0) (\<lambda>row. bindE (getlast row) (\<lambda>cell.
        Inr (case start of None \<Rightarrow> False | Some s \<Rightarrow> s \<in> set cell)))
     = Inr (case start of None \<Rightarrow> False | Some s \<Rightarrow> derives R s tokens)"
  proof -
    fix p
    assume t: "tab p ?n (stage R tokens (?n + 1) 0)"
    from n have pos: "0 < ?n" by simp
    with t have len: "length p = ?n" "length (p ! 0) = ?n + 1"
      and cell: "set (p ! 0 ! ?n) = stage R tokens (?n + 1) 0 0 ?n"
      by (auto simp: tab_def)
    from len(2) have ne: "p ! 0 \<noteq> []" by auto
    have "last (p ! 0) = p ! 0 ! ?n"
      using len(2) ne by (simp add: last_conv_nth)
    moreover have "stage R tokens (?n + 1) 0 0 ?n = {A. derives R A tokens}"
      using pos by (simp add: stage_def reach_def slice_all)
    ultimately show "bindE (getidx p 0) (\<lambda>row. bindE (getlast row) (\<lambda>cell.
        Inr (case start of None \<Rightarrow> False | Some s \<Rightarrow> s \<in> set cell)))
     = Inr (case start of None \<Rightarrow> False | Some s \<Rightarrow> derives R s tokens)"
      using pos len ne cell by (simp add: bindE_def getidx_def getlast_def split: option.splits)
  qed
  show ?thesis
    unfolding is_in_language_run_def Let_def
    apply (rule ensuresM_bind [OF init_sets])
    apply (rule ensuresM_bind [OF base_loop [OF so]])
     apply assumption
    apply (rule ensuresM_bind [OF l_loop [OF so n]])
     apply assumption
    apply (rule ensuresM_liftE)
    apply (simp add: fin)
    done
qed

text \<open>
  C2. For every grammar and every non-empty token sequence, \<open>is_in_language\<close> returns,
  and returns \<open>True\<close> exactly when the start symbol derives the token sequence by the
  grammar's rules; \<open>derives\<close> does not look at a probability. This holds for every
  iteration order of the sets.
\<close>

theorem is_in_language_derivable:
  assumes "set_order so" and "tokens \<noteq> []"
  shows "fst (is_in_language so G tokens) = Inr (in_language G tokens)"
proof -
  from is_in_language_run_correct [OF assms, of "rules_of (rhs_to_rules G)" "startsymbol G"]
  have "ensures (fst (is_in_language_run so (startsymbol G) tokens (rhs_to_rules G)))
          (\<lambda>b. b = in_language G tokens) (\<lambda>_. False)"
    by (simp add: ensuresM_def in_language_def)
  then show ?thesis
    by (cases "fst (is_in_language_run so (startsymbol G) tokens (rhs_to_rules G))")
      (simp_all add: is_in_language_def split_def)
qed

lemma set_order_remdups: "set_order remdups"
  by (simp add: set_order_def)

theorem is_in_language_derivable_witness:
  "set_order (remdups :: string list \<Rightarrow> string list) \<and> [''dogs'', ''bark''] \<noteq> []
   \<and> fst (is_in_language remdups G0 [''dogs'', ''bark'']) = Inr True
   \<and> in_language G0 [''dogs'', ''bark'']"
proof -
  have a: "fst (is_in_language remdups G0 [''dogs'', ''bark'']) = Inr True"
    by (simp add: is_in_language_def is_in_language_run_def G0_def eval_defs split_step_def
        upt_rec numeral_eq_Suc)
  from is_in_language_derivable [OF set_order_remdups, of "[''dogs'', ''bark'']" G0] a
  show ?thesis by (simp add: set_order_remdups)
qed

section \<open>The parsing engine, span by span\<close>

lemma at_setitem: "chart_at (setitem c0 sp cell) c0 sp cell"
  by (simp add: chart_at_def setitem_def update_conv')

lemma at_getitem: "chart_at c c0 sp cell \<Longrightarrow> getitem c sp = Inr cell"
  by (simp add: chart_at_def getitem_def)

lemma at_getitem_other: "chart_at c c0 sp cell \<Longrightarrow> sp' \<noteq> sp \<Longrightarrow> getitem c sp' = getitem c0 sp'"
  by (simp add: chart_at_def getitem_def)

lemma at_cellf_other: "chart_at c c0 sp cell \<Longrightarrow> sp' \<noteq> sp \<Longrightarrow> cellf c sp' = cellf c0 sp'"
  by (simp add: chart_at_def cellf_def)

lemma at_cellf: "chart_at c c0 sp cell \<Longrightarrow> cellf c sp = cell"
  by (simp add: chart_at_def cellf_def)

lemma at_setitem2:
  "chart_at c c0 sp cell \<Longrightarrow> \<exists>c'. setitem2 c sp a v = Inr c' \<and> chart_at c' c0 sp (AList.update a v cell)"
  by (simp add: chart_at_def setitem2_def getitem_def bindE_def setitem_def update_conv')

lemma at_getitem2: "chart_at c c0 sp cell \<Longrightarrow> getitem2 c sp a = getitem cell a"
  by (simp add: getitem2_def at_getitem bindE_def)

lemma getitem_cellf: "map_of c sp \<noteq> None \<Longrightarrow> getitem c sp = Inr (cellf c sp)"
  by (auto simp: getitem_def cellf_def)

lemma cell_keys_cellf: "map_of c sp \<noteq> None \<Longrightarrow> cell_keys c sp = Inr (map fst (cellf c sp))"
  by (simp add: cell_keys_def getitem_cellf bindE_def)

lemma getitem2_val:
  "map_of c sp \<noteq> None \<Longrightarrow> a \<in> set (map fst (cellf c sp)) \<Longrightarrow> getitem2 c sp a = Inr (val ar (cellf c) sp a)"
proof -
  assume c: "map_of c sp \<noteq> None" and a: "a \<in> set (map fst (cellf c sp))"
  then obtain v where "map_of (cellf c sp) a = Some v"
    by (metis map_of_eq_None_iff not_Some_eq set_map)
  then show ?thesis
    by (simp add: getitem2_def getitem_cellf [OF c] bindE_def val_def) (simp add: getitem_def)
qed


lemma ensuresM_forM_tr:
  assumes "I tr a"
    and "\<And>x tr' a. x \<in> set xs \<Longrightarrow> I tr' a \<Longrightarrow> ensuresM R (body x a) (I (tr' @ g x)) Q"
    and "concat (map g xs) = t"
  shows "ensuresM R (forM xs body a) (I (tr @ t)) Q"
  using ensuresM_forM [of I tr a xs R body g Q] assms by simp

lemma map_fst_rule_cands: "map fst (rule_cands ar R cf i j k x y) = map fst (R [x, y])"
  by (simp add: rule_cands_def split_def)

lemma map_fst_left_cands:
  "map fst (left_cands ar R cf i j k x) = concat (map (\<lambda>y. map fst (R [x, y])) (map fst (cf (k, j))))"
  by (simp add: left_cands_def map_concat comp_def map_fst_rule_cands)

lemma map_fst_split_cands:
  "map fst (split_cands ar R cf i j k)
     = concat (map (\<lambda>x. concat (map (\<lambda>y. map fst (R [x, y])) (map fst (cf (k, j)))))
         (map fst (cf (i, k))))"
  by (simp add: split_cands_def map_concat comp_def map_fst_left_cands)

lemma map_fst_cands:
  "map fst (cands ar R cf i j)
     = concat (map (\<lambda>k. concat (map (\<lambda>x. concat (map (\<lambda>y. map fst (R [x, y]))
         (map fst (cf (k, j))))) (map fst (cf (i, k))))) [i + 1..<j])"
  by (simp add: cands_def map_concat comp_def map_fst_split_cands)

lemma ensuresM_forM_acc:
  assumes "\<And>x a. x \<in> set xs \<Longrightarrow> ensuresM R (body x a) (\<lambda>r. r = a @ g x) Q"
  shows "ensuresM R (forM xs body acc) (\<lambda>r. r = acc @ concat (map g xs)) Q"
proof -
  have "ensuresM R (forM xs body acc) ((\<lambda>tr r. r = acc @ tr) ([] @ concat (map g xs))) Q"
  proof (rule ensuresM_forM)
    show "acc = acc @ []" by simp
  next
    fix x tr a
    assume "x \<in> set xs" "a = acc @ tr"
    then show "ensuresM R (body x a) (\<lambda>r. r = acc @ tr @ g x) Q"
      using assms [of x a] by simp
  qed
  then show ?thesis by simp
qed

text \<open>The comprehension that builds \<open>L\<close>.\<close>

lemma lhs_comprehension:
  assumes keys: "\<And>k. i < k \<Longrightarrow> k < j \<Longrightarrow> map_of pb (i, k) \<noteq> None \<and> map_of pb (k, j) \<noteq> None"
  shows "ensuresM R
     (forM [i + 1..<j] (\<lambda>k acc.
        bindM (liftE (cell_keys pb (i, k))) (\<lambda>xs.
        forM xs (\<lambda>x acc.
          bindM (liftE (cell_keys pb (k, j))) (\<lambda>ys.
          forM ys (\<lambda>y acc.
            bindM (lookup_rules [x, y]) (\<lambda>rules.
            returnM (acc @ map fst rules))) acc)) acc)) [])
     (\<lambda>L. L = map fst (cands ar R (cellf pb) i j)) Q"
proof -
  let ?cf = "cellf pb"
  let ?gy = "\<lambda>x y. map fst (R [x, y])"
  let ?gx = "\<lambda>k x. concat (map (?gy x) (map fst (?cf (k, j))))"
  let ?gk = "\<lambda>k. concat (map (?gx k) (map fst (?cf (i, k))))"
  let ?by = "\<lambda>x y acc. bindM (lookup_rules [x, y]) (\<lambda>rules. returnM (acc @ map fst rules))"
  let ?bx = "\<lambda>k x acc. bindM (liftE (cell_keys pb (k, j))) (\<lambda>ys. forM ys (?by x) acc)"
  let ?bk = "\<lambda>k acc. bindM (liftE (cell_keys pb (i, k))) (\<lambda>xs. forM xs (?bx k) acc)"
  have xloop: "ensuresM R (?bx k x acc) (\<lambda>r. r = acc @ ?gx k x) Q" if "i < k" "k < j" for k x acc
  proof (rule ensuresM_bind [where P' = "\<lambda>ys. ys = map fst (?cf (k, j))"])
    show "ensuresM R (liftE (cell_keys pb (k, j))) (\<lambda>ys. ys = map fst (?cf (k, j))) Q"
      using keys [OF that] by (simp add: cell_keys_cellf ensuresM_liftE)
  next
    fix ys
    assume "ys = map fst (?cf (k, j))"
    then show "ensuresM R (forM ys (?by x) acc) (\<lambda>r. r = acc @ ?gx k x) Q"
      using ensuresM_collect [where key = "\<lambda>y. [x, y]" and f = "\<lambda>y rules. map fst rules"
          and ini = acc and xs = ys and R = R and Q = Q] by simp
  qed
  have kloop: "ensuresM R (?bk k acc) (\<lambda>r. r = acc @ ?gk k) Q" if "i < k" "k < j" for k acc
  proof (rule ensuresM_bind [where P' = "\<lambda>xs. xs = map fst (?cf (i, k))"])
    show "ensuresM R (liftE (cell_keys pb (i, k))) (\<lambda>xs. xs = map fst (?cf (i, k))) Q"
      using keys [OF that] by (simp add: cell_keys_cellf ensuresM_liftE)
  next
    fix xs
    assume xs: "xs = map fst (?cf (i, k))"
    have "ensuresM R (forM xs (?bx k) acc) (\<lambda>r. r = acc @ concat (map (?gx k) xs)) Q"
      by (rule ensuresM_forM_acc) (rule xloop [OF that])
    then show "ensuresM R (forM xs (?bx k) acc) (\<lambda>r. r = acc @ ?gk k) Q"
      using xs by simp
  qed
  have "ensuresM R (forM [i + 1..<j] ?bk []) (\<lambda>r. r = [] @ concat (map ?gk [i + 1..<j])) Q"
  proof (rule ensuresM_forM_acc)
    fix k a
    assume "k \<in> set [i + 1..<j]"
    then have "i < k" "k < j" by auto
    then show "ensuresM R (?bk k a) (\<lambda>r. r = a @ ?gk k) Q" by (rule kloop)
  qed
  then show ?thesis by (simp add: map_fst_cands)
qed


lemma ensuresM_forM_fold:
  assumes "St c a"
    and "\<And>x c a. x \<in> set xs \<Longrightarrow> St c a \<Longrightarrow> ensuresM R (body x a) (St (f x c)) Q"
  shows "ensuresM R (forM xs body a) (St (fold f xs c)) Q"
  using assms
proof (induction xs arbitrary: c a)
  case Nil
  then show ?case by (simp add: ensuresM_return)
next
  case (Cons x xs)
  have "ensuresM R (bindM (body x a) (forM xs body)) (St (fold f xs (f x c))) Q"
  proof (rule ensuresM_bind)
    show "ensuresM R (body x a) (St (f x c)) Q" using Cons.prems by simp
  next
    fix a'
    assume "St (f x c) a'"
    then show "ensuresM R (forM xs body a') (St (fold f xs (f x c))) Q"
      using Cons.prems(2) by (intro Cons.IH) auto
  qed
  then show ?case by simp
qed

lemma chart_at_getitem2_other:
  "chart_at c c0 sp cell \<Longrightarrow> sp' \<noteq> sp \<Longrightarrow> getitem2 c sp' a = getitem2 c0 sp' a"
  by (simp add: getitem2_def at_getitem_other)

lemma chart_at_cell_keys_other:
  "chart_at c c0 sp cell \<Longrightarrow> sp' \<noteq> sp \<Longrightarrow> cell_keys c sp' = cell_keys c0 sp'"
  by (simp add: cell_keys_def at_getitem_other)

lemma init_step_keys: "fst ` set (snd (init_step ar l c)) = insert l (fst ` set (snd c))"
  by (cases c) (simp add: init_step_def dom_update)

lemma fold_init_step_keys: "fst ` set (snd (fold (init_step ar) L c)) = set L \<union> fst ` set (snd c)"
  by (induction L arbitrary: c) (auto simp: init_step_keys)

lemma cstep_keys: "fst ` set (snd (cstep ar i j cand c)) = fst ` set (snd c)"
proof -
  obtain l x k y s where cand: "cand = (l, x, k, y, s)" by (cases cand)
  obtain tc pc where c: "c = (tc, pc)" by (cases c)
  show ?thesis
  proof (cases "map_of pc l")
    case None
    then show ?thesis by (simp add: cand c cstep_def)
  next
    case (Some cur)
    then have "l \<in> fst ` set pc" by (metis map_of_eq_None_iff option.distinct(1))
    then show ?thesis using Some by (auto simp: cand c cstep_def dom_update)
  qed
qed

lemma fold_cstep_keys: "fst ` set (snd (fold (cstep ar i j) cs c)) = fst ` set (snd c)"
  by (induction cs arbitrary: c) (simp_all add: cstep_keys)

lemma init_loop:
  assumes "cells_at sp c0 cs (tb, pb)"
  shows "ensuresM R
     (forM L (\<lambda>l (tb, pb).
        liftE (bindE (setitem2 pb sp l (neg_inf ar)) (\<lambda>pb.
               bindE (setitem2 tb sp l Sentinel) (\<lambda>tb.
               Inr (tb, pb))))) (tb, pb))
     (cells_at sp c0 (fold (init_step ar) L cs)) Q"
proof (rule ensuresM_forM_fold [where St = "cells_at sp c0", OF assms])
  fix l :: string and c :: "_ cells" and a :: "_ charts"
  assume a: "cells_at sp c0 c a"
  obtain tb pb where ab: "a = (tb, pb)" by (cases a)
  obtain tc pc where c: "c = (tc, pc)" by (cases c)
  from a ab c have t: "chart_at tb (fst c0) sp tc" and p: "chart_at pb (snd c0) sp pc"
    by (simp_all add: cells_at_def)
  from at_setitem2 [OF p, of l "neg_inf ar"] obtain pb' where
    pb': "setitem2 pb sp l (neg_inf ar) = Inr pb'" "chart_at pb' (snd c0) sp (AList.update l (neg_inf ar) pc)"
    by blast
  from at_setitem2 [OF t, of l Sentinel] obtain tb' where
    tb': "setitem2 tb sp l Sentinel = Inr tb'" "chart_at tb' (fst c0) sp (AList.update l Sentinel tc)"
    by blast
  show "ensuresM R ((case a of (tb, pb) \<Rightarrow>
          liftE (bindE (setitem2 pb sp l (neg_inf ar)) (\<lambda>pb.
                 bindE (setitem2 tb sp l Sentinel) (\<lambda>tb. Inr (tb, pb))))))
          (cells_at sp c0 (init_step ar l c)) Q"
    using pb' tb'
    by (simp add: ab c bindE_def ensuresM_liftE cells_at_def init_step_def)
qed


lemma rule_cands_cand_of: "rule_cands ar R cf i j k x y = map (cand_of ar cf i j k x y) (R [x, y])"
  by (simp add: rule_cands_def cand_of_def)

lemma cand_step_ok:
  assumes inv: "span_inv (i, j) (tb0, pb0) Ls c s"
    and k: "i < k" "k < j"
    and kl: "map_of pb0 (i, k) \<noteq> None" and kr: "map_of pb0 (k, j) \<noteq> None"
    and x: "x \<in> set (map fst (cellf pb0 (i, k)))" and y: "y \<in> set (map fst (cellf pb0 (k, j)))"
    and r: "(l, rhs, p) \<in> set (R [x, y])" and l: "l \<in> Ls"
  shows "ensures (cand_step ar i j k x y l p s)
           (span_inv (i, j) (tb0, pb0) Ls (cstep ar i j (cand_of ar (cellf pb0) i j k x y (l, rhs, p)) c))
           (bad_prob R)"
proof (cases "p \<le> 0")
  case True
  then have "cand_step ar i j k x y l p s = Inl ValueError"
    by (cases s) (simp add: cand_step_def log2_def bindE_def)
  moreover have "bad_prob R ValueError"
    using r True by (auto simp: bad_prob_def)
  ultimately show ?thesis by simp
next
  case False
  obtain tb pb where s: "s = (tb, pb)" by (cases s)
  obtain tc pc where c: "c = (tc, pc)" by (cases c)
  from inv s c have t: "chart_at tb tb0 (i, j) tc" and pp: "chart_at pb pb0 (i, j) pc"
    and Ls: "Ls \<subseteq> fst ` set pc"
    by (simp_all add: span_inv_def cells_at_def)
  let ?s = "add_op ar (add_op ar (log2_op ar p) (val ar (cellf pb0) (i, k) x)) (val ar (cellf pb0) (k, j) y)"
  have lg: "log2 ar p = Inr (log2_op ar p)" using False by (simp add: log2_def)
  have gx: "getitem2 pb (i, k) x = Inr (val ar (cellf pb0) (i, k) x)"
    using chart_at_getitem2_other [OF pp, of "(i, k)" x] getitem2_val [OF kl x] k by simp
  have gy: "getitem2 pb (k, j) y = Inr (val ar (cellf pb0) (k, j) y)"
    using chart_at_getitem2_other [OF pp, of "(k, j)" y] getitem2_val [OF kr y] k by simp
  from l Ls have "l \<in> fst ` set pc" by blast
  then obtain cur where cur: "map_of pc l = Some cur"
    by (metis map_of_eq_None_iff not_Some_eq)
  then have gl: "getitem2 pb (i, j) l = Inr cur"
    by (simp add: at_getitem2 [OF pp] getitem_def)
  show ?thesis
  proof (cases "gt_op ar ?s cur")
    case True
    from at_setitem2 [OF pp, of l ?s] obtain pb' where
      pb': "setitem2 pb (i, j) l ?s = Inr pb'" "chart_at pb' pb0 (i, j) (AList.update l ?s pc)"
      by blast
    from at_setitem2 [OF t, of l "Split (x, i, k) (y, k, j)"] obtain tb' where
      tb': "setitem2 tb (i, j) l (Split (x, i, k) (y, k, j)) = Inr tb'"
        "chart_at tb' tb0 (i, j) (AList.update l (Split (x, i, k) (y, k, j)) tc)"
      by blast
    have res: "cand_step ar i j k x y l p s = Inr (tb', pb')"
      using True by (simp add: s cand_step_def lg gx gy gl pb' tb' bindE_def)
    have "cstep ar i j (cand_of ar (cellf pb0) i j k x y (l, rhs, p)) c
            = (AList.update l (Split (x, i, k) (y, k, j)) tc, AList.update l ?s pc)"
      using True cur by (simp add: cstep_def cand_of_def c)
    moreover have "Ls \<subseteq> fst ` set (AList.update l ?s pc)"
      using Ls by (auto simp: dom_update)
    ultimately show ?thesis
      using pb'(2) tb'(2) by (simp add: res span_inv_def cells_at_def)
  next
    case False
    have res: "cand_step ar i j k x y l p s = Inr (tb, pb)"
      using False by (simp add: s cand_step_def lg gx gy gl bindE_def)
    have "cstep ar i j (cand_of ar (cellf pb0) i j k x y (l, rhs, p)) c = c"
      using False cur by (simp add: cstep_def cand_of_def c)
    then show ?thesis using inv res by (simp add: s)
  qed
qed

lemma rules_loop:
  assumes inv: "span_inv (i, j) (tb0, pb0) Ls c s"
    and k: "i < k" "k < j"
    and kl: "map_of pb0 (i, k) \<noteq> None" and kr: "map_of pb0 (k, j) \<noteq> None"
    and x: "x \<in> set (map fst (cellf pb0 (i, k)))" and y: "y \<in> set (map fst (cellf pb0 (k, j)))"
    and l: "fst ` set (R [x, y]) \<subseteq> Ls"
  shows "ensuresM R
           (forM (R [x, y]) (\<lambda>(l, _, p) tp. liftE (cand_step ar i j k x y l p tp)) s)
           (span_inv (i, j) (tb0, pb0) Ls (fold (cstep ar i j) (rule_cands ar R (cellf pb0) i j k x y) c))
           (bad_prob R)"
proof -
  have "ensuresM R
           (forM (R [x, y]) (\<lambda>(l, _, p) tp. liftE (cand_step ar i j k x y l p tp)) s)
           (span_inv (i, j) (tb0, pb0) Ls
              (fold (\<lambda>rule. cstep ar i j (cand_of ar (cellf pb0) i j k x y rule)) (R [x, y]) c))
           (bad_prob R)"
  proof (rule ensuresM_forM_fold [where St = "span_inv (i, j) (tb0, pb0) Ls", OF inv])
    fix rule :: rule and c' :: "_ cells" and a :: "_ charts"
    assume m: "rule \<in> set (R [x, y])" and a: "span_inv (i, j) (tb0, pb0) Ls c' a"
    obtain l' rhs p where rule: "rule = (l', rhs, p)" by (cases rule)
    from m l rule have l': "l' \<in> Ls" by force
    from m rule have m': "(l', rhs, p) \<in> set (R [x, y])" by simp
    have "ensures (cand_step ar i j k x y l' p a)
            (span_inv (i, j) (tb0, pb0) Ls (cstep ar i j (cand_of ar (cellf pb0) i j k x y (l', rhs, p)) c'))
            (bad_prob R)"
      using a k kl kr x y m' l' by (rule cand_step_ok)
    then show "ensuresM R ((case rule of (l, _, p) \<Rightarrow> \<lambda>tp. liftE (cand_step ar i j k x y l p tp)) a)
            (span_inv (i, j) (tb0, pb0) Ls (cstep ar i j (cand_of ar (cellf pb0) i j k x y rule) c'))
            (bad_prob R)"
      by (simp add: rule ensuresM_liftE)
  qed
  then show ?thesis by (simp add: rule_cands_cand_of fold_map comp_def)
qed


lemma fold_concat_map: "fold (\<lambda>x. fold f (g x)) xs c = fold f (concat (map g xs)) c"
  by (induction xs arbitrary: c) simp_all

lemma lhs_in_cands:
  assumes "i < k" "k < j" "x \<in> set (map fst (cf (i, k)))" "y \<in> set (map fst (cf (k, j)))"
  shows "fst ` set (R [x, y]) \<subseteq> set (map fst (cands ar R cf i j))"
proof -
  from assms(1,2) have "k \<in> set [i + 1..<j]" by simp
  with assms(3,4) show ?thesis
    unfolding map_fst_cands by (auto simp del: set_upt)
qed

lemma span_inv_cell_keys:
  assumes "span_inv sp (tb0, pb0) Ls c s" "sp' \<noteq> sp" "map_of pb0 sp' \<noteq> None"
  shows "cell_keys (snd s) sp' = Inr (map fst (cellf pb0 sp'))"
proof -
  obtain tb pb where s: "s = (tb, pb)" by (cases s)
  with assms(1) have "chart_at pb pb0 sp (snd c)" by (simp add: span_inv_def cells_at_def)
  from chart_at_cell_keys_other [OF this assms(2)] cell_keys_cellf [OF assms(3)] s
  show ?thesis by simp
qed

lemma split_loop:
  assumes inv: "span_inv (i, j) (tb0, pb0) Ls c s"
    and k: "i < k" "k < j"
    and kl: "map_of pb0 (i, k) \<noteq> None" and kr: "map_of pb0 (k, j) \<noteq> None"
    and Ls: "set (map fst (cands ar R (cellf pb0) i j)) \<subseteq> Ls"
  shows "ensuresM R
     (bindM (liftE (cell_keys (snd s) (i, k))) (\<lambda>xs.
        forM xs (\<lambda>x tp.
          bindM (liftE (cell_keys (snd tp) (k, j))) (\<lambda>ys.
          forM ys (\<lambda>y tp.
            bindM (lookup_rules [x, y]) (\<lambda>rules.
            forM rules (\<lambda>(l, _, p) tp. liftE (cand_step ar i j k x y l p tp)) tp)) tp)) s))
     (span_inv (i, j) (tb0, pb0) Ls (fold (cstep ar i j) (split_cands ar R (cellf pb0) i j k) c))
     (bad_prob R)"
proof -
  let ?cf = "cellf pb0"
  let ?St = "span_inv (i, j) (tb0, pb0) Ls"
  let ?by = "\<lambda>x y tp. bindM (lookup_rules [x, y]) (\<lambda>rules.
            forM rules (\<lambda>(l, _, p) tp. liftE (cand_step ar i j k x y l p tp)) tp)"
  let ?bx = "\<lambda>x tp. bindM (liftE (cell_keys (snd tp) (k, j))) (\<lambda>ys. forM ys (?by x) tp)"
  have ne: "(i, k) \<noteq> (i, j)" "(k, j) \<noteq> (i, j)" using k by auto
  have ybody: "ensuresM R (?by x y tp) (?St (fold (cstep ar i j) (rule_cands ar R ?cf i j k x y) c')) (bad_prob R)"
    if "?St c' tp" "x \<in> set (map fst (?cf (i, k)))" "y \<in> set (map fst (?cf (k, j)))" for x y tp c'
  proof (rule ensuresM_bind [where P' = "\<lambda>rules. rules = R [x, y]"])
    show "ensuresM R (lookup_rules [x, y]) (\<lambda>rules. rules = R [x, y]) (bad_prob R)"
      by (rule ensuresM_lookup) simp
  next
    fix rules
    assume "rules = R [x, y]"
    moreover have "fst ` set (R [x, y]) \<subseteq> Ls"
      using lhs_in_cands [OF k that(2,3), of R] Ls by blast
    ultimately show "ensuresM R (forM rules (\<lambda>(l, _, p) tp. liftE (cand_step ar i j k x y l p tp)) tp)
        (?St (fold (cstep ar i j) (rule_cands ar R ?cf i j k x y) c')) (bad_prob R)"
      using rules_loop [OF that(1) k kl kr that(2,3)] by simp
  qed
  have xbody: "ensuresM R (?bx x tp) (?St (fold (cstep ar i j) (left_cands ar R ?cf i j k x) c')) (bad_prob R)"
    if "?St c' tp" "x \<in> set (map fst (?cf (i, k)))" for x tp c'
  proof (rule ensuresM_bind [where P' = "\<lambda>ys. ys = map fst (?cf (k, j))"])
    show "ensuresM R (liftE (cell_keys (snd tp) (k, j))) (\<lambda>ys. ys = map fst (?cf (k, j))) (bad_prob R)"
      by (simp add: span_inv_cell_keys [OF that(1) ne(2) kr] ensuresM_liftE)
  next
    fix ys
    assume ys: "ys = map fst (?cf (k, j))"
    have "ensuresM R (forM ys (?by x) tp)
        (?St (fold (\<lambda>y. fold (cstep ar i j) (rule_cands ar R ?cf i j k x y)) ys c')) (bad_prob R)"
    proof (rule ensuresM_forM_fold [where St = ?St, OF that(1)])
      fix y c'' a
      assume "y \<in> set ys" "?St c'' a"
      then show "ensuresM R (?by x y a) (?St (fold (cstep ar i j) (rule_cands ar R ?cf i j k x y) c''))
                   (bad_prob R)"
        using ybody [of c'' a x y] that(2) ys by simp
    qed
    then show "ensuresM R (forM ys (?by x) tp)
        (?St (fold (cstep ar i j) (left_cands ar R ?cf i j k x) c')) (bad_prob R)"
      by (simp add: fold_concat_map left_cands_def ys)
  qed
  show ?thesis
  proof (rule ensuresM_bind [where P' = "\<lambda>xs. xs = map fst (?cf (i, k))"])
    show "ensuresM R (liftE (cell_keys (snd s) (i, k))) (\<lambda>xs. xs = map fst (?cf (i, k))) (bad_prob R)"
      by (simp add: span_inv_cell_keys [OF inv ne(1) kl] ensuresM_liftE)
  next
    fix xs
    assume xs: "xs = map fst (?cf (i, k))"
    have "ensuresM R (forM xs ?bx s)
        (?St (fold (\<lambda>x. fold (cstep ar i j) (left_cands ar R ?cf i j k x)) xs c)) (bad_prob R)"
    proof (rule ensuresM_forM_fold [where St = ?St, OF inv])
      fix x c' a
      assume "x \<in> set xs" "?St c' a"
      then show "ensuresM R (?bx x a) (?St (fold (cstep ar i j) (left_cands ar R ?cf i j k x) c'))
                   (bad_prob R)"
        using xbody [of c' a x] xs by simp
    qed
    then show "ensuresM R (forM xs ?bx s)
        (?St (fold (cstep ar i j) (split_cands ar R ?cf i j k) c)) (bad_prob R)"
      by (simp add: fold_concat_map split_cands_def xs)
  qed
qed

lemma main_loop:
  assumes inv: "span_inv (i, j) (tb0, pb0) Ls c s"
    and keys: "\<And>k. i < k \<Longrightarrow> k < j \<Longrightarrow> map_of pb0 (i, k) \<noteq> None \<and> map_of pb0 (k, j) \<noteq> None"
    and Ls: "set (map fst (cands ar R (cellf pb0) i j)) \<subseteq> Ls"
  shows "ensuresM R
     (forM [i + 1..<j] (\<lambda>k tp.
        bindM (liftE (cell_keys (snd tp) (i, k))) (\<lambda>xs.
        forM xs (\<lambda>x tp.
          bindM (liftE (cell_keys (snd tp) (k, j))) (\<lambda>ys.
          forM ys (\<lambda>y tp.
            bindM (lookup_rules [x, y]) (\<lambda>rules.
            forM rules (\<lambda>(l, _, p) tp. liftE (cand_step ar i j k x y l p tp)) tp)) tp)) tp)) s)
     (span_inv (i, j) (tb0, pb0) Ls (fold (cstep ar i j) (cands ar R (cellf pb0) i j) c))
     (bad_prob R)"
proof -
  let ?bk = "\<lambda>k tp.
        bindM (liftE (cell_keys (snd tp) (i, k))) (\<lambda>xs.
        forM xs (\<lambda>x tp.
          bindM (liftE (cell_keys (snd tp) (k, j))) (\<lambda>ys.
          forM ys (\<lambda>y tp.
            bindM (lookup_rules [x, y]) (\<lambda>rules.
            forM rules (\<lambda>(l, _, p) tp. liftE (cand_step ar i j k x y l p tp)) tp)) tp)) tp)"
  have "ensuresM R (forM [i + 1..<j] ?bk s)
     (span_inv (i, j) (tb0, pb0) Ls
        (fold (\<lambda>k. fold (cstep ar i j) (split_cands ar R (cellf pb0) i j k)) [i + 1..<j] c))
     (bad_prob R)"
  proof (rule ensuresM_forM_fold [where St = "span_inv (i, j) (tb0, pb0) Ls", OF inv])
    fix k c' a
    assume "k \<in> set [i + 1..<j]" and a: "span_inv (i, j) (tb0, pb0) Ls c' a"
    then have k: "i < k" "k < j" by auto
    from keys [OF k] have kk: "map_of pb0 (i, k) \<noteq> None" "map_of pb0 (k, j) \<noteq> None" by auto
    show "ensuresM R (?bk k a)
            (span_inv (i, j) (tb0, pb0) Ls (fold (cstep ar i j) (split_cands ar R (cellf pb0) i j k) c'))
            (bad_prob R)"
      by (rule split_loop [OF a k kk Ls])
  qed
  then show ?thesis by (simp add: fold_concat_map cands_def)
qed


lemma cands_cong:
  assumes "\<And>k. i < k \<Longrightarrow> k < j \<Longrightarrow> cf (i, k) = cf' (i, k) \<and> cf (k, j) = cf' (k, j)"
  shows "cands ar R cf i j = cands ar R cf' i j"
proof -
  have "split_cands ar R cf i j k = split_cands ar R cf' i j k" if "k \<in> set [i + 1..<j]" for k
  proof -
    from that have "i < k" "k < j" by auto
    from assms [OF this] have e: "cf (i, k) = cf' (i, k)" "cf (k, j) = cf' (k, j)" by auto
    have rc: "rule_cands ar R cf i j k = rule_cands ar R cf' i j k"
      by (simp add: rule_cands_def val_def fun_eq_iff e)
    have lc: "left_cands ar R cf i j k = left_cands ar R cf' i j k"
      by (simp add: left_cands_def fun_eq_iff rc e)
    show ?thesis
      by (simp add: split_cands_def lc e)
  qed
  then show ?thesis
    unfolding cands_def by (metis (no_types, lifting) map_cong)
qed

lemma span_cells_cong:
  assumes "\<And>k. i < k \<Longrightarrow> k < j \<Longrightarrow> cf (i, k) = cf' (i, k) \<and> cf (k, j) = cf' (k, j)"
  shows "span_cells ar R cf i j = span_cells ar R cf' i j"
  by (simp add: span_cells_def cands_cong [OF assms])

lemma span_step_cells:
  assumes keys: "\<And>k. i < k \<Longrightarrow> k < j \<Longrightarrow> map_of pb0 (i, k) \<noteq> None \<and> map_of pb0 (k, j) \<noteq> None"
  shows "ensuresM R (span_step ar i j (tb0, pb0))
           (cells_at (i, j) (tb0, pb0) (span_cells ar R (cellf pb0) i j)) (bad_prob R)"
proof -
  let ?pb = "setitem pb0 (i, j) []" and ?tb = "setitem tb0 (i, j) []"
  let ?L = "map fst (cands ar R (cellf pb0) i j)"
  have pb: "chart_at ?pb pb0 (i, j) []" and tb: "chart_at ?tb tb0 (i, j) []"
    by (rule at_setitem)+
  have keys': "map_of ?pb (i, k) \<noteq> None \<and> map_of ?pb (k, j) \<noteq> None" if "i < k" "k < j" for k
    using keys [OF that] that pb by (simp add: chart_at_def)
  have "cands ar R (cellf ?pb) i j = cands ar R (cellf pb0) i j"
  proof (rule cands_cong)
    fix k
    assume "i < k" "k < j"
    then show "cellf ?pb (i, k) = cellf pb0 (i, k) \<and> cellf ?pb (k, j) = cellf pb0 (k, j)"
      using at_cellf_other [OF pb, of "(i, k)"] at_cellf_other [OF pb, of "(k, j)"] by simp
  qed
  with lhs_comprehension [of i j ?pb R ar "bad_prob R"] keys'
  have L: "ensuresM R
     (forM [i + 1..<j] (\<lambda>k acc.
        bindM (liftE (cell_keys ?pb (i, k))) (\<lambda>xs.
        forM xs (\<lambda>x acc.
          bindM (liftE (cell_keys ?pb (k, j))) (\<lambda>ys.
          forM ys (\<lambda>y acc.
            bindM (lookup_rules [x, y]) (\<lambda>rules.
            returnM (acc @ map fst rules))) acc)) acc)) [])
     (\<lambda>L. L = ?L) (bad_prob R)" by simp
  have c0: "cells_at (i, j) (tb0, pb0) ([], []) (?tb, ?pb)"
    using pb tb by (simp add: cells_at_def)
  have "ensuresM R (span_step ar i j (tb0, pb0))
           (span_inv (i, j) (tb0, pb0) (set ?L)
              (fold (cstep ar i j) (cands ar R (cellf pb0) i j) (fold (init_step ar) ?L ([], []))))
           (bad_prob R)"
    unfolding span_step_def Let_def prod.case
  proof (rule ensuresM_bind [OF L], rule ensuresM_bind [OF init_loop [OF c0]])
    fix L tp
    assume L: "L = ?L" and tp: "cells_at (i, j) (tb0, pb0) (fold (init_step ar) L ([], [])) tp"
    have "span_inv (i, j) (tb0, pb0) (set ?L) (fold (init_step ar) ?L ([], [])) tp"
      using tp L by (simp add: span_inv_def fold_init_step_keys)
    from main_loop [OF this keys, of ar R]
    show "ensuresM R
     (forM [i + 1..<j] (\<lambda>k tp.
        bindM (liftE (cell_keys (snd tp) (i, k))) (\<lambda>xs.
        forM xs (\<lambda>x tp.
          bindM (liftE (cell_keys (snd tp) (k, j))) (\<lambda>ys.
          forM ys (\<lambda>y tp.
            bindM (lookup_rules [x, y]) (\<lambda>rules.
            forM rules (\<lambda>(l, _, p) tp. liftE (cand_step ar i j k x y l p tp)) tp)) tp)) tp)) tp)
     (span_inv (i, j) (tb0, pb0) (set ?L)
        (fold (cstep ar i j) (cands ar R (cellf pb0) i j) (fold (init_step ar) ?L ([], []))))
     (bad_prob R)" by simp
  qed
  then show ?thesis
    by (rule ensuresM_weaken) (simp_all add: span_inv_def span_cells_def)
qed

section \<open>The parsing engine as a whole\<close>

lemma done_span_Suc:
  assumes "0 < l" "i + l \<le> n"
  shows "done_span n l (Suc i) sp = (sp = (i, i + l) \<or> done_span n l i sp)"
  using assms by (cases sp) (auto simp: done_span_def)

lemma done_span_subspans:
  assumes "done_span n l m (i, j)" "i < k" "k < j"
  shows "done_span n l m (i, k)" "done_span n l m (k, j)"
  using assms by (auto simp: done_span_def)

lemma filled_tb: "filled ar so R tokens l m (tb, pb) \<Longrightarrow> (map_of tb sp \<noteq> None) = done_span (length tokens) l m sp"
  unfolding filled_def prod.case by blast

lemma filled_pb: "filled ar so R tokens l m (tb, pb) \<Longrightarrow> (map_of pb sp \<noteq> None) = done_span (length tokens) l m sp"
  unfolding filled_def prod.case by blast

lemma filled_cells:
  "filled ar so R tokens l m (tb, pb) \<Longrightarrow> done_span (length tokens) l m (i, j) \<Longrightarrow>
     (cellf tb (i, j), cellf pb (i, j))
       = (if j = i + 1 then base_cells ar so R (tokens ! i) else span_cells ar R (cellf pb) i j)"
  unfolding filled_def prod.case by blast

lemma filledI:
  assumes "\<And>sp. (map_of tb sp \<noteq> None) = done_span (length tokens) l m sp"
    and "\<And>sp. (map_of pb sp \<noteq> None) = done_span (length tokens) l m sp"
    and "\<And>i j. done_span (length tokens) l m (i, j) \<Longrightarrow>
     (cellf tb (i, j), cellf pb (i, j))
       = (if j = i + 1 then base_cells ar so R (tokens ! i) else span_cells ar R (cellf pb) i j)"
  shows "filled ar so R tokens l m (tb, pb)"
  unfolding filled_def prod.case using assms by blast

lemma filled_step:
  assumes l: "0 < l" "i + l \<le> length tokens"
    and f: "filled ar so R tokens l i (tb0, pb0)"
    and s: "cells_at (i, i + l) (tb0, pb0) cs s"
    and cs: "cs = (if l = 1 then base_cells ar so R (tokens ! i) else span_cells ar R (cellf pb0) i (i + l))"
  shows "filled ar so R tokens l (Suc i) s"
proof -
  let ?n = "length tokens"
  obtain tb pb where sp: "s = (tb, pb)" by (cases s)
  from s sp have t: "chart_at tb tb0 (i, i + l) (fst cs)" and p: "chart_at pb pb0 (i, i + l) (snd cs)"
    by (simp_all add: cells_at_def)
  note d0 = filled_tb [OF f] filled_pb [OF f] and c0 = filled_cells [OF f]
  have nd: "\<not> done_span ?n l i (i, i + l)" by (simp add: done_span_def)
  have d1: "(map_of tb sp \<noteq> None) = done_span ?n l (Suc i) sp" for sp
    using t d0(1) [of sp] by (auto simp: chart_at_def done_span_Suc [OF l])
  have d2: "(map_of pb sp \<noteq> None) = done_span ?n l (Suc i) sp" for sp
    using p d0(2) [of sp] by (auto simp: chart_at_def done_span_Suc [OF l])
  have same: "cellf pb sp = cellf pb0 sp" "cellf tb sp = cellf tb0 sp" if "sp \<noteq> (i, i + l)" for sp
    using that at_cellf_other [OF p] at_cellf_other [OF t] by auto
  have sub: "span_cells ar R (cellf pb) i' j' = span_cells ar R (cellf pb0) i' j'"
    if "i' < j'" "j' - i' \<le> l" for i' j'
  proof (rule span_cells_cong)
    fix k
    assume "i' < k" "k < j'"
    with that have "(i', k) \<noteq> (i, i + l)" "(k, j') \<noteq> (i, i + l)" by auto
    then show "cellf pb (i', k) = cellf pb0 (i', k) \<and> cellf pb (k, j') = cellf pb0 (k, j')"
      by (simp add: same)
  qed
  have c1: "(cellf tb (i', j'), cellf pb (i', j'))
            = (if j' = i' + 1 then base_cells ar so R (tokens ! i') else span_cells ar R (cellf pb) i' j')"
    if dn: "done_span ?n l (Suc i) (i', j')" for i' j'
  proof (cases "(i', j') = (i, i + l)")
    case True
    then have "cellf tb (i', j') = fst cs" "cellf pb (i', j') = snd cs"
      using at_cellf [OF t] at_cellf [OF p] by auto
    moreover have "span_cells ar R (cellf pb) i (i + l) = span_cells ar R (cellf pb0) i (i + l)"
      using l by (intro sub) auto
    ultimately show ?thesis using True cs by auto
  next
    case False
    with dn have dn0: "done_span ?n l i (i', j')" by (auto simp: done_span_Suc [OF l])
    then have "i' < j'" "j' - i' \<le> l" by (auto simp: done_span_def)
    from sub [OF this] c0 [OF dn0] False show ?thesis by (simp add: same)
  qed
  show ?thesis
    unfolding sp by (rule filledI) (rule d1 d2 c1; assumption?)+
qed

lemma span_step_filled:
  assumes l: "2 \<le> l" "i + l \<le> length tokens"
    and f: "filled ar so R tokens l i tp"
  shows "ensuresM R (span_step ar i (i + l) tp) (filled ar so R tokens l (Suc i)) (bad_prob R)"
proof -
  obtain tb0 pb0 where tp: "tp = (tb0, pb0)" by (cases tp)
  have d: "(map_of pb0 sp \<noteq> None) = done_span (length tokens) l i sp" for sp
    using f unfolding tp by (rule filled_pb)
  have keys: "map_of pb0 (i, k) \<noteq> None \<and> map_of pb0 (k, i + l) \<noteq> None" if "i < k" "k < i + l" for k
    using that l d [of "(i, k)"] d [of "(k, i + l)"] by (auto simp: done_span_def)
  show ?thesis
    unfolding tp
  proof (rule ensuresM_weaken [OF span_step_cells])
    fix k
    assume "i < k" "k < i + l"
    then show "map_of pb0 (i, k) \<noteq> None \<and> map_of pb0 (k, i + l) \<noteq> None" by (rule keys)
  next
    fix s
    assume "cells_at (i, i + l) (tb0, pb0) (span_cells ar R (cellf pb0) i (i + l)) s"
    then show "filled ar so R tokens l (Suc i) s"
      using l f tp by (intro filled_step [where cs = "span_cells ar R (cellf pb0) i (i + l)"]) auto
  qed simp
qed


lemma base_step_filled:
  assumes so: "set_order so" and i: "i < length tokens"
    and init: "init = map (base_pairs so R) tokens"
    and f: "filled ar so R tokens 1 i tp"
  shows "ensuresM R (base_step ar tokens init i tp) (filled ar so R tokens 1 (Suc i)) (bad_prob R)"
proof -
  obtain tb0 pb0 where tp: "tp = (tb0, pb0)" by (cases tp)
  let ?tok = "tokens ! i"
  let ?sp = "(i, i + 1)"
  let ?body = "\<lambda>(a, b) (tb, pb).
       liftE (bindE (getidx tokens i) (\<lambda>tok.
              bindE (setitem2 tb ?sp a (Leaf tok)) (\<lambda>tb.
              bindE (log2 ar b) (\<lambda>v.
              bindE (setitem2 pb ?sp a v) (\<lambda>pb.
              Inr (tb, pb))))))"
  have so_set: "\<And>xs. set (so xs) = set xs" using so by (simp add: set_order_def)
  have g: "getidx init i = Inr (base_pairs so R ?tok)"
    using i init by (simp add: getidx_def)
  have c0: "cells_at ?sp (tb0, pb0) ([], []) (setitem tb0 ?sp [], setitem pb0 ?sp [])"
    by (simp add: cells_at_def at_setitem)
  have loop: "ensuresM R
      (forM (base_pairs so R ?tok) ?body (setitem tb0 ?sp [], setitem pb0 ?sp []))
      (cells_at ?sp (tb0, pb0) (fold (bstep ar ?tok) (base_pairs so R ?tok) ([], []))) (bad_prob R)"
  proof (rule ensuresM_forM_fold [where St = "cells_at ?sp (tb0, pb0)", OF c0])
    fix ab :: "string \<times> real" and c :: "_ cells" and s :: "_ charts"
    assume m: "ab \<in> set (base_pairs so R ?tok)" and s: "cells_at ?sp (tb0, pb0) c s"
    obtain a b where ab: "ab = (a, b)" by (cases ab)
    obtain tb pb where st: "s = (tb, pb)" by (cases s)
    obtain tc pc where c: "c = (tc, pc)" by (cases c)
    from s st c have t: "chart_at tb tb0 ?sp tc" and p: "chart_at pb pb0 ?sp pc"
      by (simp_all add: cells_at_def)
    from m ab obtain rhs where r: "(a, rhs, b) \<in> set (R [?tok])"
      by (auto simp: base_pairs_def so_set)
    have gt: "getidx tokens i = Inr ?tok" using i by (simp add: getidx_def)
    from at_setitem2 [OF t, of a "Leaf ?tok"] obtain tb' where
      tb': "setitem2 tb ?sp a (Leaf ?tok) = Inr tb'"
        "chart_at tb' tb0 ?sp (AList.update a (Leaf ?tok) tc)" by blast
    from at_setitem2 [OF p, of a "log2_op ar b"] obtain pb' where
      pb': "setitem2 pb ?sp a (log2_op ar b) = Inr pb'"
        "chart_at pb' pb0 ?sp (AList.update a (log2_op ar b) pc)" by blast
    have "ensures (bindE (getidx tokens i) (\<lambda>tok.
              bindE (setitem2 tb ?sp a (Leaf tok)) (\<lambda>tb.
              bindE (log2 ar b) (\<lambda>v.
              bindE (setitem2 pb ?sp a v) (\<lambda>pb.
              Inr (tb, pb))))))
            (cells_at ?sp (tb0, pb0) (bstep ar ?tok (a, b) c)) (bad_prob R)"
    proof (cases "b \<le> 0")
      case True
      then have "bad_prob R ValueError" using r by (auto simp: bad_prob_def)
      with True tb'(1) show ?thesis by (simp add: gt bindE_def log2_def)
    next
      case False
      then show ?thesis
        using tb' pb'
        by (simp add: gt bindE_def log2_def cells_at_def bstep_def c)
    qed
    then show "ensuresM R (?body ab s) (cells_at ?sp (tb0, pb0) (bstep ar ?tok ab c)) (bad_prob R)"
      by (simp add: ab st ensuresM_liftE)
  qed
  have "ensuresM R (base_step ar tokens init i (tb0, pb0))
          (cells_at ?sp (tb0, pb0) (base_cells ar so R ?tok)) (bad_prob R)"
    unfolding base_step_def prod.case base_cells_def
  proof (rule ensuresM_bind [where P' = "\<lambda>pairs. pairs = base_pairs so R ?tok"])
    show "ensuresM R (liftE (getidx init i)) (\<lambda>pairs. pairs = base_pairs so R ?tok) (bad_prob R)"
      by (simp add: g ensuresM_liftE)
  next
    fix pairs
    assume "pairs = base_pairs so R ?tok"
    then show "ensuresM R (forM pairs ?body (setitem tb0 ?sp [], setitem pb0 ?sp []))
      (cells_at ?sp (tb0, pb0) (fold (bstep ar ?tok) (base_pairs so R ?tok) ([], []))) (bad_prob R)"
      using loop by simp
  qed
  then show ?thesis
    unfolding tp
  proof (rule ensuresM_weaken)
    fix s
    assume "cells_at ?sp (tb0, pb0) (base_cells ar so R ?tok) s"
    then show "filled ar so R tokens 1 (Suc i) s"
      using i f tp by (intro filled_step [where cs = "base_cells ar so R ?tok" and l = 1]) auto
  qed simp
qed

lemma filled_cong:
  "done_span (length tokens) l m = done_span (length tokens) l' m'
   \<Longrightarrow> filled ar so R tokens l m = filled ar so R tokens l' m'"
  by (simp add: filled_def)

lemma done_span_next:
  assumes "l \<le> n"
  shows "done_span n l (n - l + 1) = done_span n (Suc l) 0"
proof
  fix sp
  show "done_span n l (n - l + 1) sp = done_span n (Suc l) 0 sp"
    using assms by (cases sp) (auto simp: done_span_def)
qed

lemma parse_i_loop:
  assumes l: "2 \<le> l" "l \<le> length tokens" and f: "filled ar so R tokens l 0 tp"
  shows "ensuresM R (forM [0..<length tokens - l + 1] (\<lambda>i. span_step ar i (i + l)) tp)
           (filled ar so R tokens (Suc l) 0) (bad_prob R)"
proof -
  let ?n = "length tokens"
  have "ensuresM R (forM [0..<?n - l + 1] (\<lambda>i. span_step ar i (i + l)) tp)
           (filled ar so R tokens l (?n - l + 1)) (bad_prob R)"
  proof (rule ensuresM_forM_upt [where I = "filled ar so R tokens l"])
    show "filled ar so R tokens l 0 tp" by (rule f)
  next
    show "0 \<le> ?n - l + 1" by simp
  next
    fix i a
    assume "i < ?n - l + 1" "filled ar so R tokens l i a"
    then show "ensuresM R (span_step ar i (i + l) a) (filled ar so R tokens l (Suc i)) (bad_prob R)"
      using l by (intro span_step_filled) auto
  qed
  then show ?thesis
    by (simp only: filled_cong [OF done_span_next [OF l(2)]])
qed

lemma parse_l_loop:
  assumes n: "tokens \<noteq> []" and f: "filled ar so R tokens 2 0 tp"
  shows "ensuresM R
     (forM [2..<length tokens + 1] (\<lambda>length'.
        forM [0..<length tokens - length' + 1] (\<lambda>i. span_step ar i (i + length'))) tp)
     (chart_ok ar so R tokens) (bad_prob R)"
  unfolding chart_ok_def
proof (rule ensuresM_forM_upt [where I = "\<lambda>l. filled ar so R tokens l 0"])
  show "filled ar so R tokens 2 0 tp" by (rule f)
next
  show "2 \<le> length tokens + 1" using n by (cases tokens) auto
next
  fix l a
  assume "2 \<le> l" "l < length tokens + 1" "filled ar so R tokens l 0 a"
  then show "ensuresM R (forM [0..<length tokens - l + 1] (\<lambda>i. span_step ar i (i + l)) a)
     (filled ar so R tokens (Suc l) 0) (bad_prob R)"
    by (intro parse_i_loop) auto
qed

lemma parse_base_loop:
  assumes so: "set_order so" and init: "init = map (base_pairs so R) tokens"
  shows "ensuresM R (forM [0..<length tokens] (base_step ar tokens init) ([], []))
           (filled ar so R tokens 2 0) (bad_prob R)"
proof -
  have "ensuresM R (forM [0..<length tokens] (base_step ar tokens init) ([], []))
           (filled ar so R tokens 1 (length tokens)) (bad_prob R)"
  proof (rule ensuresM_forM_upt [where I = "filled ar so R tokens 1"])
    show "filled ar so R tokens 1 0 ([], [])"
      by (rule filledI) (auto simp: done_span_def)
  next
    show "0 \<le> length tokens" by simp
  next
    fix i a
    assume "i < length tokens" "filled ar so R tokens 1 i a"
    then show "ensuresM R (base_step ar tokens init i a) (filled ar so R tokens 1 (Suc i)) (bad_prob R)"
      by (intro base_step_filled [OF so _ init])
  qed
  moreover have "done_span (length tokens) 1 (length tokens) = done_span (length tokens) 2 0"
  proof
    fix sp
    show "done_span (length tokens) 1 (length tokens) sp = done_span (length tokens) 2 0 sp"
      by (cases sp) (auto simp: done_span_def)
  qed
  ultimately show ?thesis by (simp only: filled_cong [of tokens 1 "length tokens" 2 0])
qed

lemma parse_init:
  "ensuresM R (forM tokens (\<lambda>i init. bindM (lookup_rules [i])
                  (\<lambda>rules. returnM (init @ [so (map (\<lambda>(j, _, p). (j, p)) rules)]))) [])
     (\<lambda>init. init = map (base_pairs so R) tokens) Q"
proof -
  have e: "base_pairs so R = (\<lambda>t. so (map (\<lambda>(j, _, p). (j, p)) (R [t])))"
    by (simp add: fun_eq_iff base_pairs_def)
  show ?thesis
    using ensuresM_collect [where key = "\<lambda>i. [i]"
        and f = "\<lambda>i rules. [so (map (\<lambda>(j, _, p). (j, p)) rules)]"
        and ini = "[]" and xs = tokens and R = R and Q = Q]
    by (simp add: e)
qed

lemma parse_run_correct:
  assumes so: "set_order so"
  shows "ensuresM R (parse_run ar so tokens) (chart_ok ar so R tokens) (bad_prob R)"
proof (cases "tokens = []")
  case True
  have "filled ar so R [] 1 0 ([], [])"
    by (rule filledI) (auto simp: done_span_def)
  then show ?thesis
    using True by (simp add: parse_run_def chart_ok_def ensuresM_return bindM_def returnM_def
        ensuresM_def ensures_def ext_refl)
next
  case False
  show ?thesis
    unfolding parse_run_def Let_def
    apply (rule ensuresM_bind [OF parse_init])
    apply (rule ensuresM_bind [OF parse_base_loop [OF so]])
     apply assumption
    apply (rule parse_l_loop [OF False])
    apply assumption
    done
qed

section \<open>The cells of a chart\<close>

lemma cstep_other:
  assumes "fst c \<noteq> l"
  shows "map_of (fst (cstep ar i j c cs)) l = map_of (fst cs) l"
    and "map_of (snd (cstep ar i j c cs)) l = map_of (snd cs) l"
proof -
  obtain l' x k y s where c: "c = (l', x, k, y, s)" by (cases c)
  obtain tc pc where cs: "cs = (tc, pc)" by (cases cs)
  from assms c have ne: "l' \<noteq> l" by simp
  show "map_of (fst (cstep ar i j c cs)) l = map_of (fst cs) l"
    using ne by (simp add: c cs cstep_def update_conv' split: option.splits)
  show "map_of (snd (cstep ar i j c cs)) l = map_of (snd cs) l"
    using ne by (simp add: c cs cstep_def update_conv' split: option.splits)
qed

lemma cstep_same:
  assumes "fst c = l" "map_of (fst cs) l = Some bp" "map_of (snd cs) l = Some cur"
  shows "map_of (fst (cstep ar i j c cs)) l = Some (fst (kstep ar i j c (bp, cur)))"
    and "map_of (snd (cstep ar i j c cs)) l = Some (snd (kstep ar i j c (bp, cur)))"
proof -
  obtain l' x k y s where c: "c = (l', x, k, y, s)" by (cases c)
  obtain tc pc where cs: "cs = (tc, pc)" by (cases cs)
  from assms c have l: "l' = l" by simp
  show "map_of (fst (cstep ar i j c cs)) l = Some (fst (kstep ar i j c (bp, cur)))"
    using assms(2,3) by (simp add: c cs l cstep_def kstep_def update_conv')
  show "map_of (snd (cstep ar i j c cs)) l = Some (snd (kstep ar i j c (bp, cur)))"
    using assms(2,3) by (simp add: c cs l cstep_def kstep_def update_conv')
qed

lemma fold_cstep_key:
  assumes "map_of (fst cs) l = Some bp" "map_of (snd cs) l = Some cur"
  shows "map_of (fst (fold (cstep ar i j) xs cs)) l
           = Some (fst (fold (kstep ar i j) (filter (\<lambda>c. fst c = l) xs) (bp, cur)))
       \<and> map_of (snd (fold (cstep ar i j) xs cs)) l
           = Some (snd (fold (kstep ar i j) (filter (\<lambda>c. fst c = l) xs) (bp, cur)))"
  using assms
proof (induction xs arbitrary: cs bp cur)
  case Nil
  then show ?case by simp
next
  case (Cons c xs)
  show ?case
  proof (cases "fst c = l")
    case True
    from cstep_same [OF True Cons.prems, of ar i j]
    have "map_of (fst (cstep ar i j c cs)) l = Some (fst (kstep ar i j c (bp, cur)))"
      "map_of (snd (cstep ar i j c cs)) l = Some (snd (kstep ar i j c (bp, cur)))" by auto
    from Cons.IH [OF this] True show ?thesis by simp
  next
    case False
    from cstep_other [OF False, of ar i j cs] Cons.prems
    have "map_of (fst (cstep ar i j c cs)) l = Some bp" "map_of (snd (cstep ar i j c cs)) l = Some cur"
      by auto
    from Cons.IH [OF this] False show ?thesis by simp
  qed
qed

lemma init_step_other:
  "l' \<noteq> l \<Longrightarrow> map_of (fst (init_step ar l' cs)) l = map_of (fst cs) l
     \<and> map_of (snd (init_step ar l' cs)) l = map_of (snd cs) l"
  by (cases cs) (simp add: init_step_def update_conv')

lemma init_step_same:
  "map_of (fst (init_step ar l cs)) l = Some Sentinel \<and> map_of (snd (init_step ar l cs)) l = Some (neg_inf ar)"
  by (cases cs) (simp add: init_step_def update_conv')

lemma fold_init_step_key:
  assumes "l \<in> set L"
  shows "map_of (fst (fold (init_step ar) L cs)) l = Some Sentinel
       \<and> map_of (snd (fold (init_step ar) L cs)) l = Some (neg_inf ar)"
  using assms
proof (induction L arbitrary: cs rule: rev_induct)
  case Nil
  then show ?case by simp
next
  case (snoc l' L)
  show ?case
  proof (cases "l' = l")
    case True
    then show ?thesis
      using init_step_same [of ar l "fold (init_step ar) L cs"] by simp
  next
    case False
    with snoc.prems have "l \<in> set L" by simp
    from snoc.IH [OF this, of cs] init_step_other [OF False, of ar "fold (init_step ar) L cs"]
    show ?thesis by simp
  qed
qed

lemma init_step_keys_fst: "fst ` set (fst (init_step ar l c)) = insert l (fst ` set (fst c))"
  by (cases c) (simp add: init_step_def dom_update)

lemma fold_init_step_keys_fst: "fst ` set (fst (fold (init_step ar) L c)) = set L \<union> fst ` set (fst c)"
  by (induction L arbitrary: c) (auto simp: init_step_keys_fst)

lemma cstep_keys_fst:
  assumes "fst ` set (fst c) = fst ` set (snd c)"
  shows "fst ` set (fst (cstep ar i j cand c)) = fst ` set (fst c)"
proof -
  obtain l x k y s where cand: "cand = (l, x, k, y, s)" by (cases cand)
  obtain tc pc where c: "c = (tc, pc)" by (cases c)
  show ?thesis
  proof (cases "map_of pc l")
    case None
    then show ?thesis by (simp add: cand c cstep_def)
  next
    case (Some cur)
    then have "l \<in> fst ` set pc" by (metis map_of_eq_None_iff option.distinct(1))
    with assms c have "l \<in> fst ` set tc" by simp
    then show ?thesis using Some by (auto simp: cand c cstep_def dom_update)
  qed
qed

lemma fold_cstep_keys_fst:
  assumes "fst ` set (fst c) = fst ` set (snd c)"
  shows "fst ` set (fst (fold (cstep ar i j) cs c)) = fst ` set (fst c)"
  using assms
proof (induction cs arbitrary: c)
  case Nil
  then show ?case by simp
next
  case (Cons a cs)
  have "fst ` set (fst (cstep ar i j a c)) = fst ` set (snd (cstep ar i j a c))"
    using Cons.prems by (simp add: cstep_keys_fst cstep_keys)
  from Cons.IH [OF this] Cons.prems show ?case by (simp add: cstep_keys_fst)
qed

text \<open>The cells of a span, key by key.\<close>

lemma span_cells_keys:
  "fst ` set (snd (span_cells ar R cf i j)) = set (map fst (cands ar R cf i j))"
  "fst ` set (fst (span_cells ar R cf i j)) = set (map fst (cands ar R cf i j))"
proof -
  show "fst ` set (snd (span_cells ar R cf i j)) = set (map fst (cands ar R cf i j))"
    by (simp add: span_cells_def fold_cstep_keys fold_init_step_keys)
  have "fst ` set (fst (fold (init_step ar) (map fst (cands ar R cf i j)) ([], [])))
          = fst ` set (snd (fold (init_step ar) (map fst (cands ar R cf i j)) ([], [])))"
    by (simp add: fold_init_step_keys fold_init_step_keys_fst)
  from fold_cstep_keys_fst [OF this]
  show "fst ` set (fst (span_cells ar R cf i j)) = set (map fst (cands ar R cf i j))"
    by (simp add: span_cells_def fold_init_step_keys_fst)
qed

lemma span_cells_key:
  assumes "l \<in> set (map fst (cands ar R cf i j))"
  shows "map_of (fst (span_cells ar R cf i j)) l
           = Some (fst (fold (kstep ar i j) (cands_for ar R cf i j l) (Sentinel, neg_inf ar)))"
    and "map_of (snd (span_cells ar R cf i j)) l
           = Some (snd (fold (kstep ar i j) (cands_for ar R cf i j l) (Sentinel, neg_inf ar)))"
proof -
  let ?c0 = "fold (init_step ar) (map fst (cands ar R cf i j)) ([], [])"
  from fold_init_step_key [OF assms, of ar "([], [])"]
  have a: "map_of (fst ?c0) l = Some Sentinel" and b: "map_of (snd ?c0) l = Some (neg_inf ar)"
    by auto
  from fold_cstep_key [OF a b, of ar i j "cands ar R cf i j"]
  show "map_of (fst (span_cells ar R cf i j)) l
           = Some (fst (fold (kstep ar i j) (cands_for ar R cf i j l) (Sentinel, neg_inf ar)))"
    and "map_of (snd (span_cells ar R cf i j)) l
           = Some (snd (fold (kstep ar i j) (cands_for ar R cf i j l) (Sentinel, neg_inf ar)))"
    by (simp_all add: span_cells_def cands_for_def)
qed

lemma kstep_apply:
  "kstep ar i j c (bp, cur) = (if gt_op ar (score c) cur then (split_of i j c, score c) else (bp, cur))"
  by (cases c) (simp add: kstep_def score_def split_of_def)

text \<open>Strict replacement keeps the first candidate of greatest score.\<close>

lemma weak_order_on_subset: "weak_order_on ar S \<Longrightarrow> S' \<subseteq> S \<Longrightarrow> weak_order_on ar S'"
  unfolding weak_order_on_def by blast

lemma weak_order_on_irrefl: "weak_order_on ar S \<Longrightarrow> a \<in> S \<Longrightarrow> \<not> gt_op ar a a"
  unfolding weak_order_on_def by blast

lemma weak_order_on_asym:
  "weak_order_on ar S \<Longrightarrow> a \<in> S \<Longrightarrow> b \<in> S \<Longrightarrow> gt_op ar a b \<Longrightarrow> \<not> gt_op ar b a"
  unfolding weak_order_on_def by blast

lemma weak_order_on_trans_le:
  "weak_order_on ar S \<Longrightarrow> a \<in> S \<Longrightarrow> b \<in> S \<Longrightarrow> c \<in> S \<Longrightarrow> gt_op ar a b \<Longrightarrow> \<not> gt_op ar c b
     \<Longrightarrow> gt_op ar a c"
  unfolding weak_order_on_def by blast

lemma fold_kstep_first_greatest:
  assumes "cl \<noteq> []" and "weak_order_on ar (score ` set cl)"
    and "\<forall>c\<in>set cl. gt_op ar (score c) (neg_inf ar)"
  shows "\<exists>m<length cl.
           fold (kstep ar i j) cl (Sentinel, neg_inf ar) = (split_of i j (cl ! m), score (cl ! m))
         \<and> (\<forall>m'<length cl. \<not> gt_op ar (score (cl ! m')) (score (cl ! m)))
         \<and> (\<forall>m'<m. gt_op ar (score (cl ! m)) (score (cl ! m')))"
  using assms
proof (induction cl rule: rev_induct)
  case Nil
  then show ?case by simp
next
  case (snoc c cl)
  let ?S = "score ` set (cl @ [c])"
  note wo = snoc.prems(2)
  have cS: "score c \<in> ?S" by simp
  have inS: "score (cl ! m') \<in> ?S" if "m' < length cl" for m'
    using that by simp
  from snoc.prems have fin: "gt_op ar (score c) (neg_inf ar)" by simp
  show ?case
  proof (cases "cl = []")
    case True
    from fin have "fold (kstep ar i j) (cl @ [c]) (Sentinel, neg_inf ar) = (split_of i j c, score c)"
      by (simp add: True kstep_apply)
    then show ?thesis using weak_order_on_irrefl [OF wo cS] by (simp add: True)
  next
    case False
    have "weak_order_on ar (score ` set cl)"
      by (rule weak_order_on_subset [OF wo]) auto
    with snoc.IH [OF False] snoc.prems(3) obtain m where m: "m < length cl"
      and r: "fold (kstep ar i j) cl (Sentinel, neg_inf ar) = (split_of i j (cl ! m), score (cl ! m))"
      and mx: "\<forall>m'<length cl. \<not> gt_op ar (score (cl ! m')) (score (cl ! m))"
      and fs: "\<forall>m'<m. gt_op ar (score (cl ! m)) (score (cl ! m'))" by auto
    show ?thesis
    proof (cases "gt_op ar (score c) (score (cl ! m))")
      case True
      have res: "fold (kstep ar i j) (cl @ [c]) (Sentinel, neg_inf ar) = (split_of i j c, score c)"
        using True by (simp add: r kstep_apply)
      have gtc: "gt_op ar (score c) (score (cl ! m'))" if "m' < length cl" for m'
        using weak_order_on_trans_le [OF wo cS inS [OF m] inS [OF that] True] mx that by blast
      then have a: "\<forall>m'<length cl. gt_op ar (score ((cl @ [c]) ! length cl)) (score ((cl @ [c]) ! m'))"
        by (simp add: nth_append)
      have b: "\<forall>m'<length (cl @ [c]).
                 \<not> gt_op ar (score ((cl @ [c]) ! m')) (score ((cl @ [c]) ! length cl))"
      proof (intro allI impI)
        fix m'
        assume "m' < length (cl @ [c])"
        then consider "m' < length cl" | "m' = length cl" by force
        then show "\<not> gt_op ar (score ((cl @ [c]) ! m')) (score ((cl @ [c]) ! length cl))"
        proof cases
          case 1
          from weak_order_on_asym [OF wo cS inS [OF 1] gtc [OF 1]] 1 show ?thesis
            by (simp add: nth_append)
        next
          case 2
          then show ?thesis using weak_order_on_irrefl [OF wo cS] by simp
        qed
      qed
      show ?thesis
        by (rule exI [of _ "length cl"]) (use res a b in simp)
    next
      case False
      have res: "fold (kstep ar i j) (cl @ [c]) (Sentinel, neg_inf ar)
                   = (split_of i j ((cl @ [c]) ! m), score ((cl @ [c]) ! m))"
        using False m by (simp add: r kstep_apply nth_append)
      have b: "\<forall>m'<length (cl @ [c]). \<not> gt_op ar (score ((cl @ [c]) ! m')) (score ((cl @ [c]) ! m))"
      proof (intro allI impI)
        fix m'
        assume "m' < length (cl @ [c])"
        then consider "m' < length cl" | "m' = length cl" by force
        then show "\<not> gt_op ar (score ((cl @ [c]) ! m')) (score ((cl @ [c]) ! m))"
        proof cases
          case 1
          with mx m show ?thesis by (simp add: nth_append)
        next
          case 2
          with False m show ?thesis by (simp add: nth_append)
        qed
      qed
      have a: "\<forall>m'<m. gt_op ar (score ((cl @ [c]) ! m)) (score ((cl @ [c]) ! m'))"
        using fs m by (simp add: nth_append)
      show ?thesis
        by (rule exI [of _ m]) (use res a b m in simp)
    qed
  qed
qed

text \<open>The exact arithmetic is a case: its \<open>>\<close> is a strict weak order and every real
  number is greater than \<open>-inf\<close>.\<close>

lemma exact_simps [simp]:
  "log2_op exact x = Fin (log 2 x)" "add_op exact = fadd" "gt_op exact = fgt"
  "neg_inf exact = NegInf"
  by (simp_all add: exact_def)

lemma weak_order_on_exact: "weak_order_on exact S"
  unfolding weak_order_on_def
proof (intro conjI ballI impI)
  fix a
  show "\<not> gt_op exact a a" by (cases a) auto
next
  fix a b c
  assume "gt_op exact a b \<and> gt_op exact b c"
  then show "gt_op exact a c" by (cases a; cases b; cases c) auto
next
  fix a b c
  assume "\<not> gt_op exact a b \<and> \<not> gt_op exact b c"
  then show "\<not> gt_op exact a c" by (cases a; cases b; cases c) auto
qed

lemma fold_kstep_first_best:
  assumes "cl \<noteq> []" and "\<forall>c\<in>set cl. score c \<noteq> NegInf"
  shows "\<exists>m<length cl.
           fold (kstep exact i j) cl (Sentinel, NegInf) = (split_of i j (cl ! m), score (cl ! m))
         \<and> (\<forall>m'<length cl. \<not> fgt (score (cl ! m')) (score (cl ! m)))
         \<and> (\<forall>m'<m. fgt (score (cl ! m)) (score (cl ! m')))"
proof -
  have "gt_op exact (score c) (neg_inf exact)" if "c \<in> set cl" for c
    using assms(2) that by (cases "score c") auto
  then have "\<forall>c\<in>set cl. gt_op exact (score c) (neg_inf exact)" by blast
  from fold_kstep_first_greatest [OF assms(1) weak_order_on_exact this, of i j]
  show ?thesis by simp
qed

text \<open>The cells of a one-token span.\<close>

lemma fold_bstep_keys:
  "fst ` set (fst (fold (bstep ar tok) pairs c)) = fst ` set pairs \<union> fst ` set (fst c)"
  "fst ` set (snd (fold (bstep ar tok) pairs c)) = fst ` set pairs \<union> fst ` set (snd c)"
proof -
  show "fst ` set (fst (fold (bstep ar tok) pairs c)) = fst ` set pairs \<union> fst ` set (fst c)"
    by (induction pairs arbitrary: c) (auto simp: bstep_def dom_update split_def)
  show "fst ` set (snd (fold (bstep ar tok) pairs c)) = fst ` set pairs \<union> fst ` set (snd c)"
    by (induction pairs arbitrary: c) (auto simp: bstep_def dom_update split_def)
qed

lemma fold_bstep_values:
  assumes "\<forall>a v. map_of (fst c) a = Some v \<longrightarrow> v = Leaf tok"
    and "\<forall>a v. map_of (snd c) a = Some v \<longrightarrow> (\<exists>b. (a, b) \<in> S \<and> v = log2_op ar b)"
    and "set pairs \<subseteq> S"
  shows "(\<forall>a v. map_of (fst (fold (bstep ar tok) pairs c)) a = Some v \<longrightarrow> v = Leaf tok)
       \<and> (\<forall>a v. map_of (snd (fold (bstep ar tok) pairs c)) a = Some v
              \<longrightarrow> (\<exists>b. (a, b) \<in> S \<and> v = log2_op ar b))"
  using assms
proof (induction pairs arbitrary: c)
  case Nil
  then show ?case by simp
next
  case (Cons ab pairs)
  obtain a b where ab: "ab = (a, b)" by (cases ab)
  obtain tc pc where c: "c = (tc, pc)" by (cases c)
  let ?c = "bstep ar tok ab c"
  have 1: "\<forall>a v. map_of (fst ?c) a = Some v \<longrightarrow> v = Leaf tok"
    using Cons.prems(1) by (auto simp: ab c bstep_def update_conv')
  have 2: "\<forall>a v. map_of (snd ?c) a = Some v \<longrightarrow> (\<exists>b. (a, b) \<in> S \<and> v = log2_op ar b)"
    using Cons.prems(2,3) by (auto simp: ab c bstep_def update_conv')
  from Cons.IH [OF 1 2] Cons.prems(3) show ?case by simp
qed

lemma base_cells_keys:
  assumes "set_order so"
  shows "fst ` set (fst (base_cells ar so R tok)) = fst ` set (R [tok])"
    and "fst ` set (snd (base_cells ar so R tok)) = fst ` set (R [tok])"
proof -
  have "set (so xs) = set xs" for xs :: "(string \<times> real) list"
    using assms by (simp add: set_order_def)
  then have "fst ` set (base_pairs so R tok) = fst ` set (R [tok])"
    by (force simp: base_pairs_def)
  then show "fst ` set (fst (base_cells ar so R tok)) = fst ` set (R [tok])"
    and "fst ` set (snd (base_cells ar so R tok)) = fst ` set (R [tok])"
    by (simp_all add: base_cells_def fold_bstep_keys)
qed

lemma base_cells_values:
  assumes "set_order so"
  shows "map_of (fst (base_cells ar so R tok)) a = Some v \<Longrightarrow> v = Leaf tok"
    and "map_of (snd (base_cells ar so R tok)) a = Some w
           \<Longrightarrow> \<exists>rhs p. (a, rhs, p) \<in> set (R [tok]) \<and> w = log2_op ar p"
proof -
  let ?S = "set (map (\<lambda>(j, _, p). (j, p)) (R [tok]))"
  have "set (so xs) = set xs" for xs :: "(string \<times> real) list"
    using assms by (simp add: set_order_def)
  then have sub: "set (base_pairs so R tok) \<subseteq> ?S" by (simp add: base_pairs_def)
  from fold_bstep_values [where c = "([], [])" and S = ?S and tok = tok, OF _ _ sub]
  have v: "(\<forall>a v. map_of (fst (base_cells ar so R tok)) a = Some v \<longrightarrow> v = Leaf tok)
       \<and> (\<forall>a v. map_of (snd (base_cells ar so R tok)) a = Some v
              \<longrightarrow> (\<exists>b. (a, b) \<in> ?S \<and> v = log2_op ar b))"
    by (simp add: base_cells_def)
  then show "map_of (fst (base_cells ar so R tok)) a = Some v \<Longrightarrow> v = Leaf tok" by blast
  assume "map_of (snd (base_cells ar so R tok)) a = Some w"
  with v obtain b where "(a, b) \<in> ?S" "w = log2_op ar b" by blast
  then show "\<exists>rhs p. (a, rhs, p) \<in> set (R [tok]) \<and> w = log2_op ar p" by auto
qed

section \<open>The returned charts\<close>

lemma done_span_all: "done_span n (n + 1) 0 (i, j) = (i < j \<and> j \<le> n)"
  by (auto simp: done_span_def)

lemma done_span_allI: "i < j \<Longrightarrow> j \<le> n \<Longrightarrow> done_span n (n + 1) 0 (i, j)"
  by (simp only: done_span_all)

lemma chart_ok_tb:
  "chart_ok ar so R tokens (tb, pb) \<Longrightarrow> (map_of tb (i, j) \<noteq> None) = (i < j \<and> j \<le> length tokens)"
  unfolding chart_ok_def by (simp only: filled_tb done_span_all)

lemma chart_ok_pb:
  "chart_ok ar so R tokens (tb, pb) \<Longrightarrow> (map_of pb (i, j) \<noteq> None) = (i < j \<and> j \<le> length tokens)"
  unfolding chart_ok_def by (simp only: filled_pb done_span_all)

lemma chart_ok_base:
  assumes "chart_ok ar so R tokens (tb, pb)" "i < length tokens"
  shows "(cellf tb (i, Suc i), cellf pb (i, Suc i)) = base_cells ar so R (tokens ! i)"
proof -
  from assms(2) have "done_span (length tokens) (length tokens + 1) 0 (i, Suc i)"
    by (intro done_span_allI) auto
  from filled_cells [OF assms(1) [unfolded chart_ok_def] this] show ?thesis by simp
qed

lemma chart_ok_span:
  assumes "chart_ok ar so R tokens (tb, pb)" "i + 2 \<le> j" "j \<le> length tokens"
  shows "(cellf tb (i, j), cellf pb (i, j)) = span_cells ar R (cellf pb) i j"
proof -
  from assms(2,3) have "done_span (length tokens) (length tokens + 1) 0 (i, j)"
    by (intro done_span_allI) auto
  from filled_cells [OF assms(1) [unfolded chart_ok_def] this] assms(2) show ?thesis by simp
qed

lemma in_rule_cands:
  "(c \<in> set (rule_cands ar R cf i j k x y)) = (\<exists>rule. rule \<in> set (R [x, y]) \<and> c = cand_of ar cf i j k x y rule)"
  by (auto simp: rule_cands_cand_of)

lemma in_left_cands:
  "(c \<in> set (left_cands ar R cf i j k x))
     = (\<exists>y. y \<in> fst ` set (cf (k, j)) \<and> c \<in> set (rule_cands ar R cf i j k x y))"
  by (auto simp: left_cands_def)

lemma in_split_cands:
  "(c \<in> set (split_cands ar R cf i j k))
     = (\<exists>x. x \<in> fst ` set (cf (i, k)) \<and> c \<in> set (left_cands ar R cf i j k x))"
  by (auto simp: split_cands_def)

lemma in_cands_split:
  "(c \<in> set (cands ar R cf i j)) = (\<exists>k. i < k \<and> k < j \<and> c \<in> set (split_cands ar R cf i j k))"
  by (auto simp: cands_def Suc_le_eq)

lemma in_cands:
  "(c \<in> set (cands ar R cf i j)) =
     (\<exists>k x y rule. i < k \<and> k < j \<and> x \<in> fst ` set (cf (i, k)) \<and> y \<in> fst ` set (cf (k, j))
        \<and> rule \<in> set (R [x, y]) \<and> c = cand_of ar cf i j k x y rule)"
  unfolding in_cands_split in_split_cands in_left_cands in_rule_cands by blast

lemma score_cand_of:
  "score (cand_of ar cf i j k x y (l, rhs, p))
     = add_op ar (add_op ar (log2_op ar p) (val ar cf (i, k) x)) (val ar cf (k, j) y)"
  by (simp add: score_def cand_of_def)

lemma fst_cand_of: "fst (cand_of ar cf i j k x y rule) = fst rule"
  by (cases rule) (simp add: cand_of_def)


lemma val_finite:
  assumes "finite_cell (cf sp)" "x \<in> fst ` set (cf sp)"
  shows "\<exists>r. val exact cf sp x = Fin r \<and> map_of (cf sp) x = Some (Fin r)"
proof -
  from assms(2) obtain v where v: "map_of (cf sp) x = Some v"
    by (metis map_of_eq_None_iff not_Some_eq)
  with assms(1) have "v \<noteq> NegInf" by (auto simp: finite_cell_def)
  then obtain r where "v = Fin r" by (cases v) auto
  with v show ?thesis by (simp add: val_def)
qed

text \<open>A candidate, spelled out.\<close>

lemma in_cands_for:
  "(c \<in> set (cands_for ar R cf i j l)) =
     (\<exists>k x y rhs p. i < k \<and> k < j \<and> x \<in> fst ` set (cf (i, k)) \<and> y \<in> fst ` set (cf (k, j))
        \<and> (l, rhs, p) \<in> set (R [x, y]) \<and> c = cand_of ar cf i j k x y (l, rhs, p))"
proof
  assume "c \<in> set (cands_for ar R cf i j l)"
  then have "c \<in> set (cands ar R cf i j)" and l: "fst c = l" by (simp_all add: cands_for_def)
  then obtain k x y rule where k: "i < k" "k < j" "x \<in> fst ` set (cf (i, k))"
    "y \<in> fst ` set (cf (k, j))" "rule \<in> set (R [x, y])" "c = cand_of ar cf i j k x y rule"
    unfolding in_cands by blast
  obtain l' rhs p where rule: "rule = (l', rhs, p)" by (cases rule)
  from l k(6) rule have "l' = l" by (simp add: fst_cand_of)
  with k rule show "\<exists>k x y rhs p. i < k \<and> k < j \<and> x \<in> fst ` set (cf (i, k)) \<and> y \<in> fst ` set (cf (k, j))
        \<and> (l, rhs, p) \<in> set (R [x, y]) \<and> c = cand_of ar cf i j k x y (l, rhs, p)" by blast
next
  assume "\<exists>k x y rhs p. i < k \<and> k < j \<and> x \<in> fst ` set (cf (i, k)) \<and> y \<in> fst ` set (cf (k, j))
        \<and> (l, rhs, p) \<in> set (R [x, y]) \<and> c = cand_of ar cf i j k x y (l, rhs, p)"
  then obtain k x y rhs p where k: "i < k" "k < j" "x \<in> fst ` set (cf (i, k))"
    "y \<in> fst ` set (cf (k, j))" "(l, rhs, p) \<in> set (R [x, y])"
    "c = cand_of ar cf i j k x y (l, rhs, p)" by blast
  then have "c \<in> set (cands ar R cf i j)" unfolding in_cands by blast
  moreover have "fst c = l" using k(6) by (simp add: fst_cand_of)
  ultimately show "c \<in> set (cands_for ar R cf i j l)" by (simp add: cands_for_def)
qed

lemma cand_score_finite:
  assumes "c \<in> set (cands_for exact R cf i j l)"
    and fin: "\<And>k. i < k \<Longrightarrow> k < j \<Longrightarrow> finite_cell (cf (i, k)) \<and> finite_cell (cf (k, j))"
  shows "score c \<noteq> NegInf"
proof -
  from assms(1) [unfolded in_cands_for] obtain k x y rhs p where k: "i < k" "k < j"
    "x \<in> fst ` set (cf (i, k))" "y \<in> fst ` set (cf (k, j))"
    "c = cand_of exact cf i j k x y (l, rhs, p)" by blast
  from fin [OF k(1,2)] val_finite [of cf "(i, k)" x] val_finite [of cf "(k, j)" y] k(3,4)
  obtain r1 r2 where "val exact cf (i, k) x = Fin r1" "val exact cf (k, j) y = Fin r2" by blast
  then show ?thesis by (simp add: k(5) score_cand_of)
qed

text \<open>An entry of the cell of a span of two or more tokens: the first candidate of
  greatest score.\<close>

lemma span_entry:
  assumes ok: "chart_ok exact so R tokens (tb, pb)" and ij: "i + 2 \<le> j" "j \<le> length tokens"
    and fin: "\<And>k. i < k \<Longrightarrow> k < j \<Longrightarrow> finite_cell (cellf pb (i, k)) \<and> finite_cell (cellf pb (k, j))"
    and v: "map_of (cellf pb (i, j)) l = Some v"
  shows "\<exists>m<length (cands_for exact R (cellf pb) i j l).
           v = score (cands_for exact R (cellf pb) i j l ! m)
         \<and> map_of (cellf tb (i, j)) l = Some (split_of i j (cands_for exact R (cellf pb) i j l ! m))
         \<and> (\<forall>m'<length (cands_for exact R (cellf pb) i j l).
               \<not> fgt (score (cands_for exact R (cellf pb) i j l ! m')) v)
         \<and> (\<forall>m'<m. fgt v (score (cands_for exact R (cellf pb) i j l ! m')))
         \<and> v \<noteq> NegInf"
proof -
  let ?cf = "cellf pb"
  let ?cl = "cands_for exact R ?cf i j l"
  from chart_ok_span [OF ok ij] have cells: "cellf tb (i, j) = fst (span_cells exact R ?cf i j)"
    "?cf (i, j) = snd (span_cells exact R ?cf i j)" by (simp_all add: prod_eq_iff)
  from v have "l \<in> fst ` set (?cf (i, j))" by (metis map_of_eq_None_iff option.distinct(1))
  then have l: "l \<in> set (map fst (cands exact R ?cf i j))"
    by (simp add: cells(2) span_cells_keys)
  then have ne: "?cl \<noteq> []"
    by (auto simp: cands_for_def filter_empty_conv)
  have "\<forall>c\<in>set ?cl. score c \<noteq> NegInf"
    using cand_score_finite [OF _ fin] by blast
  from fold_kstep_first_best [OF ne this, of i j] obtain m where m: "m < length ?cl"
    and r: "fold (kstep exact i j) ?cl (Sentinel, NegInf) = (split_of i j (?cl ! m), score (?cl ! m))"
    and mx: "\<forall>m'<length ?cl. \<not> fgt (score (?cl ! m')) (score (?cl ! m))"
    and fs: "\<forall>m'<m. fgt (score (?cl ! m)) (score (?cl ! m'))" by blast
  from span_cells_key [OF l] r v
  have e: "v = score (?cl ! m)" "map_of (cellf tb (i, j)) l = Some (split_of i j (?cl ! m))"
    by (simp_all add: cells)
  from m have "?cl ! m \<in> set ?cl" by simp
  with cand_score_finite [OF _ fin] have "score (?cl ! m) \<noteq> NegInf" by blast
  with m e mx fs show ?thesis by blast
qed

lemma cells_finite:
  assumes ok: "chart_ok exact so R tokens (tb, pb)" and so: "set_order so"
  shows "i < j \<Longrightarrow> j \<le> length tokens \<Longrightarrow> finite_cell (cellf pb (i, j))"
proof (induction "j - i" arbitrary: i j rule: less_induct)
  case less
  show ?case
  proof (cases "j = Suc i")
    case True
    with less.prems have i: "i < length tokens" by simp
    from chart_ok_base [OF ok i] have "cellf pb (i, j) = snd (base_cells exact so R (tokens ! i))"
      by (simp add: True prod_eq_iff)
    then show ?thesis
      using base_cells_values(2) [OF so, of exact R "tokens ! i"] by (fastforce simp: finite_cell_def)
  next
    case False
    with less.prems have ij: "i + 2 \<le> j" "j \<le> length tokens" by auto
    have fin: "finite_cell (cellf pb (i, k)) \<and> finite_cell (cellf pb (k, j))" if "i < k" "k < j" for k
      using that less.prems less.hyps [of k i] less.hyps [of j k] by auto
    show ?thesis
      unfolding finite_cell_def
    proof (intro allI notI)
      fix a
      assume "map_of (cellf pb (i, j)) a = Some NegInf"
      from span_entry [OF ok ij fin this] show False by blast
    qed
  qed
qed

lemma parse_result:
  assumes "set_order so"
  shows "ensures (fst (parse_with_backpointers ar so G tokens))
           (chart_ok ar so (rules_of (rhs_to_rules G)) tokens)
           (bad_prob (rules_of (rhs_to_rules G)))"
  using parse_run_correct [OF assms, of "rules_of (rhs_to_rules G)" ar tokens]
  by (simp add: ensuresM_def parse_with_backpointers_def split_def)

lemma parse_returned:
  assumes "set_order so" "fst (parse_with_backpointers ar so G tokens) = Inr (tb, pb)"
  shows "chart_ok ar so (rules_of (rhs_to_rules G)) tokens (tb, pb)"
  using parse_result [OF assms(1), of ar G tokens] assms(2) by simp

lemma chart_keys_same:
  assumes ok: "chart_ok ar so R tokens (tb, pb)" and so: "set_order so"
    and ij: "i < j" "j \<le> length tokens"
  shows "fst ` set (cellf tb (i, j)) = fst ` set (cellf pb (i, j))"
proof (cases "j = Suc i")
  case True
  with ij have i: "i < length tokens" by simp
  from chart_ok_base [OF ok i] base_cells_keys [OF so, of ar R "tokens ! i"]
  show ?thesis by (simp add: True prod_eq_iff)
next
  case False
  with ij have "i + 2 \<le> j" by simp
  from chart_ok_span [OF ok this ij(2)] span_cells_keys [of ar R "cellf pb" i j]
  show ?thesis by (simp add: prod_eq_iff)
qed

lemma chart_keys_reach:
  assumes ok: "chart_ok ar so R tokens (tb, pb)" and so: "set_order so"
  shows "i < j \<Longrightarrow> j \<le> length tokens \<Longrightarrow> fst ` set (cellf pb (i, j)) = reach R tokens i j"
proof (induction "j - i" arbitrary: i j rule: less_induct)
  case less
  show ?case
  proof (cases "j = Suc i")
    case True
    with less.prems have i: "i < length tokens" by simp
    from chart_ok_base [OF ok i] base_cells_keys [OF so, of ar R "tokens ! i"] reach_base [OF i, of R]
    show ?thesis by (simp add: True prod_eq_iff)
  next
    case False
    with less.prems have ij: "i + 2 \<le> j" "j \<le> length tokens" by auto
    have ih: "fst ` set (cellf pb (i, k)) = reach R tokens i k"
      "fst ` set (cellf pb (k, j)) = reach R tokens k j" if "i < k" "k < j" for k
      using that less.prems less.hyps [of k i] less.hyps [of j k] by auto
    from chart_ok_span [OF ok ij] have "cellf pb (i, j) = snd (span_cells ar R (cellf pb) i j)"
      by (simp add: prod_eq_iff)
    then have "fst ` set (cellf pb (i, j)) = fst ` set (cands ar R (cellf pb) i j)"
      by (simp add: span_cells_keys)
    also have "\<dots> = (\<Union>k\<in>{i<..<j}. join R (reach R tokens i k) (reach R tokens k j))"
    proof (intro set_eqI iffI)
      fix l
      assume "l \<in> fst ` set (cands ar R (cellf pb) i j)"
      then obtain c where "c \<in> set (cands ar R (cellf pb) i j)" "l = fst c" by blast
      then obtain k x y rule where k: "i < k" "k < j" "x \<in> fst ` set (cellf pb (i, k))"
        "y \<in> fst ` set (cellf pb (k, j))" "rule \<in> set (R [x, y])"
        and c: "c = cand_of ar (cellf pb) i j k x y rule" and lc: "l = fst c"
        unfolding in_cands by blast
      from c lc have "l = fst rule" by (simp add: fst_cand_of)
      note k = k this
      from k(3,4) ih [OF k(1,2)] have "x \<in> reach R tokens i k" "y \<in> reach R tokens k j" by simp_all
      then have xy: "x \<in> reach R tokens i k" "y \<in> reach R tokens k j" .
      from k(5) have "fst rule \<in> fst ` set (R [x, y])" by (rule imageI)
      with xy have "l \<in> join R (reach R tokens i k) (reach R tokens k j)"
        unfolding join_def k(6) by blast
      moreover from k(1,2) have "k \<in> {i<..<j}" by simp
      ultimately show "l \<in> (\<Union>k\<in>{i<..<j}. join R (reach R tokens i k) (reach R tokens k j))"
        by blast
    next
      fix l
      assume "l \<in> (\<Union>k\<in>{i<..<j}. join R (reach R tokens i k) (reach R tokens k j))"
      then obtain k where k0: "k \<in> {i<..<j}"
        and "l \<in> join R (reach R tokens i k) (reach R tokens k j)" by blast
      then obtain x y where xy: "x \<in> reach R tokens i k" "y \<in> reach R tokens k j"
        and "l \<in> fst ` set (R [x, y])" unfolding join_def by blast
      then obtain rule where "rule \<in> set (R [x, y])" "l = fst rule" by blast
      with k0 xy have k: "i < k" "k < j" "x \<in> reach R tokens i k"
        "y \<in> reach R tokens k j" "rule \<in> set (R [x, y])" "l = fst rule" by simp_all
      from k(3,4) ih [OF k(1,2)] have "x \<in> fst ` set (cellf pb (i, k))"
        "y \<in> fst ` set (cellf pb (k, j))" by simp_all
      with k(1,2,5) have "cand_of ar (cellf pb) i j k x y rule \<in> set (cands ar R (cellf pb) i j)"
        unfolding in_cands by blast
      then have "fst (cand_of ar (cellf pb) i j k x y rule) \<in> fst ` set (cands ar R (cellf pb) i j)"
        by (rule imageI)
      then show "l \<in> fst ` set (cands ar R (cellf pb) i j)" by (simp add: fst_cand_of k(6))
    qed
    also have "\<dots> = reach R tokens i j" by (rule reach_step [OF ij, symmetric])
    finally show ?thesis .
  qed
qed

text \<open>The entry of a nonterminal in a cell of a longer span, the finiteness of the
  cells below it discharged.\<close>

lemma chart_entry:
  assumes ok: "chart_ok exact so R tokens (tb, pb)" and so: "set_order so"
    and ij: "i + 2 \<le> j" "j \<le> length tokens"
    and v: "map_of (cellf pb (i, j)) l = Some v"
  shows "\<exists>m<length (cands_for exact R (cellf pb) i j l).
           v = score (cands_for exact R (cellf pb) i j l ! m)
         \<and> map_of (cellf tb (i, j)) l = Some (split_of i j (cands_for exact R (cellf pb) i j l ! m))
         \<and> (\<forall>m'<length (cands_for exact R (cellf pb) i j l).
               \<not> fgt (score (cands_for exact R (cellf pb) i j l ! m')) v)
         \<and> (\<forall>m'<m. fgt v (score (cands_for exact R (cellf pb) i j l ! m')))
         \<and> v \<noteq> NegInf"
proof (rule span_entry [OF ok ij _ v])
  fix k
  assume "i < k" "k < j"
  with ij cells_finite [OF ok so]
  show "finite_cell (cellf pb (i, k)) \<and> finite_cell (cellf pb (k, j))" by simp
qed

section \<open>Entries of the returned charts\<close>

lemma log2_half: "log 2 (1 / 2) = - 1"
  by (simp add: log_divide)

lemma log2_quarter: "log 2 (1 / 4) = - 2"
proof -
  have "log 2 (2 ^ 2) = 2" by (simp only: log_pow_cancel)
  then have "log 2 4 = 2" by simp
  then show ?thesis by (simp add: log_divide)
qed

lemma getitem2_iff:
  "(getitem2 c sp a = Inr v) = (map_of c sp \<noteq> None \<and> map_of (cellf c sp) a = Some v)"
  by (auto simp: getitem2_def getitem_def bindE_def cellf_def split: option.splits)

subsection \<open>The tie-break\<close>

text \<open>
  C5. For every float arithmetic \<open>ar\<close> and every set iteration order: in the charts
  returned by \<open>parse_with_backpointers\<close>, take a span of two or more tokens and a
  nonterminal \<open>l\<close> with a stored score \<open>v\<close>, and let \<open>cl\<close> be the candidates for \<open>l\<close> with
  their computed scores \<open>log2(p) + pb[(i,k)][x] + pb[(k,j)][y]\<close>, in the order of the
  loops (split point upwards, then the keys of the left cell, then the keys of the
  right cell, then the rules of \<open>rhs_to_rules[(x, y)]\<close>). The stored backpointer and
  score are the result of running over \<open>cl\<close>, from the initial pair of the sentinel and
  \<open>-inf\<close>, the step that replaces the pair only by a candidate whose score is greater,
  by the arithmetic's \<open>>\<close>, than the stored one. Consequently, when \<open>>\<close> is a strict weak
  order on the computed scores and each of them is greater than \<open>-inf\<close> (as on doubles
  when no score is NaN or \<open>-inf\<close>), they are those of a candidate \<open>cl ! m\<close> that no
  candidate exceeds and that exceeds every earlier candidate: the first candidate of
  greatest computed score. Which candidates tie is decided by the computed scores.
\<close>

theorem first_maximal_candidate_kept:
  assumes "set_order so"
    and "fst (parse_with_backpointers ar so G tokens) = Inr (tb, pb)"
    and "i + 2 \<le> j" and "j \<le> length tokens"
    and "getitem2 pb (i, j) l = Inr v"
    and "cl = cands_for ar (rules_of (rhs_to_rules G)) (cellf pb) i j l"
  shows "(\<exists>bp. getitem2 tb (i, j) l = Inr bp
            \<and> fold (kstep ar i j) cl (Sentinel, neg_inf ar) = (bp, v))
       \<and> (weak_order_on ar (score ` set cl) \<and> (\<forall>c\<in>set cl. gt_op ar (score c) (neg_inf ar))
            \<longrightarrow> (\<exists>m<length cl.
                   getitem2 tb (i, j) l = Inr (split_of i j (cl ! m)) \<and> v = score (cl ! m)
                 \<and> (\<forall>m'<length cl. \<not> gt_op ar (score (cl ! m')) (score (cl ! m)))
                 \<and> (\<forall>m'<m. gt_op ar (score (cl ! m)) (score (cl ! m')))))"
proof -
  let ?R = "rules_of (rhs_to_rules G)"
  let ?r = "fold (kstep ar i j) cl (Sentinel, neg_inf ar)"
  from parse_returned [OF assms(1,2)] have ok: "chart_ok ar so ?R tokens (tb, pb)" .
  from assms(5) have v: "map_of (cellf pb (i, j)) l = Some v" by (simp add: getitem2_iff)
  from assms(3,4) chart_ok_tb [OF ok, of i j] have t: "map_of tb (i, j) \<noteq> None" by simp
  from v have "l \<in> fst ` set (cellf pb (i, j))" by (metis map_of_eq_None_iff option.distinct(1))
  moreover from chart_ok_span [OF ok assms(3,4)]
  have cells: "cellf tb (i, j) = fst (span_cells ar ?R (cellf pb) i j)"
    "cellf pb (i, j) = snd (span_cells ar ?R (cellf pb) i j)" by (simp_all add: prod_eq_iff)
  ultimately have l: "l \<in> set (map fst (cands ar ?R (cellf pb) i j))"
    by (simp add: span_cells_keys)
  from span_cells_key [OF l] v
  have e: "map_of (cellf tb (i, j)) l = Some (fst ?r)" "v = snd ?r"
    by (simp_all add: cells [symmetric] assms(6))
  from e(1) t have g: "getitem2 tb (i, j) l = Inr (fst ?r)" by (simp add: getitem2_iff)
  from e(2) have r: "?r = (fst ?r, v)" by simp
  from l have ne: "cl \<noteq> []"
    by (auto simp: assms(6) cands_for_def filter_empty_conv)
  have "\<exists>m<length cl.
          getitem2 tb (i, j) l = Inr (split_of i j (cl ! m)) \<and> v = score (cl ! m)
        \<and> (\<forall>m'<length cl. \<not> gt_op ar (score (cl ! m')) (score (cl ! m)))
        \<and> (\<forall>m'<m. gt_op ar (score (cl ! m)) (score (cl ! m')))"
    if wo: "weak_order_on ar (score ` set cl)"
      and gt: "\<forall>c\<in>set cl. gt_op ar (score c) (neg_inf ar)"
  proof -
    from fold_kstep_first_greatest [OF ne wo gt, of i j] obtain m where m: "m < length cl"
      and f: "?r = (split_of i j (cl ! m), score (cl ! m))"
      and mx: "\<forall>m'<length cl. \<not> gt_op ar (score (cl ! m')) (score (cl ! m))"
      and fs: "\<forall>m'<m. gt_op ar (score (cl ! m)) (score (cl ! m'))" by blast
    from f g e(2) have "getitem2 tb (i, j) l = Inr (split_of i j (cl ! m))" "v = score (cl ! m)"
      by simp_all
    with m mx fs show ?thesis by blast
  qed
  with g r show ?thesis by blast
qed

lemma parse_G5:
  "fst (parse_with_backpointers exact remdups G5 [''a'', ''b'']) = Inr (tb5, pb5)"
  by (simp add: parse_with_backpointers_def parse_run_def G5_def tb5_def pb5_def eval_defs
      base_step_def span_step_def cand_step_def upt_rec numeral_eq_Suc log2_half)

lemma cands_G5:
  "cands_for exact (rules_of (rhs_to_rules G5)) (cellf pb5) 0 2 ''S''
     = [(''S'', ''A'', 1, ''B'', Fin (- 1)), (''S'', ''A'', 1, ''C'', Fin (- 1))]"
  by (simp add: cands_for_def cands_def split_cands_def left_cands_def rule_cands_def
      rules_of_def G5_def pb5_def cellf_def val_def upt_rec numeral_eq_Suc log2_half)

theorem first_maximal_candidate_kept_witness:
  "set_order (remdups :: (string \<times> real) list \<Rightarrow> (string \<times> real) list)
   \<and> fst (parse_with_backpointers exact remdups G5 [''a'', ''b'']) = Inr (tb5, pb5)
   \<and> getitem2 pb5 (0, 2) ''S'' = Inr (Fin (- 1))
   \<and> cands_for exact (rules_of (rhs_to_rules G5)) (cellf pb5) 0 2 ''S''
        = [(''S'', ''A'', 1, ''B'', Fin (- 1)), (''S'', ''A'', 1, ''C'', Fin (- 1))]
   \<and> weak_order_on exact
        (score ` set [(''S'', ''A'', 1, ''B'', Fin (- 1)), (''S'', ''A'', 1, ''C'', Fin (- 1))])
   \<and> list_all (\<lambda>c. gt_op exact (score c) (neg_inf exact))
        [(''S'', ''A'', 1, ''B'', Fin (- 1)), (''S'', ''A'', 1, ''C'', Fin (- 1))]
   \<and> getitem2 tb5 (0, 2) ''S'' = Inr (Split (''A'', 0, 1) (''B'', 1, 2))
   \<and> fold (kstep exact 0 2) [(''S'', ''A'', 1, ''B'', Fin (- 1)), (''S'', ''A'', 1, ''C'', Fin (- 1))]
        (Sentinel, NegInf) = (Split (''A'', 0, 1) (''B'', 1, 2), Fin (- 1))
   \<and> (\<exists>m<2. getitem2 tb5 (0, 2) ''S''
                = Inr (split_of 0 2
                    ([(''S'', ''A'', 1, ''B'', Fin (- 1)), (''S'', ''A'', 1, ''C'', Fin (- 1))] ! m))
          \<and> (\<forall>m'<m. fgt (Fin (- 1))
                (score ([(''S'', ''A'', 1, ''B'', Fin (- 1)), (''S'', ''A'', 1, ''C'', Fin (- 1))] ! m'))))"
proof -
  let ?cl = "[(''S'', ''A'', 1, ''B'', Fin (- 1)), (''S'', ''A'', 1, ''C'', Fin (- 1))]
               :: pyfloat cand list"
  have p: "getitem2 pb5 (0, 2) ''S'' = Inr (Fin (- 1))"
    by (simp add: pb5_def eval_defs)
  have t: "getitem2 tb5 (0, 2) ''S'' = Inr (Split (''A'', 0, 1) (''B'', 1, 2))"
    by (simp add: tb5_def eval_defs)
  have g: "\<forall>c\<in>set ?cl. gt_op exact (score c) (neg_inf exact)"
    by (simp add: score_def)
  then have g': "list_all (\<lambda>c. gt_op exact (score c) (neg_inf exact)) ?cl"
    by (simp add: score_def)
  have w: "weak_order_on exact (score ` set ?cl)" by (rule weak_order_on_exact)
  have a: "0 + 2 \<le> (2 :: nat)" and b: "2 \<le> length [''a'', ''b'']" by simp_all
  note kept = first_maximal_candidate_kept [OF set_order_remdups parse_G5 a b p cands_G5 [symmetric]]
  from kept [THEN conjunct1] t have f: "fold (kstep exact 0 2) ?cl (Sentinel, NegInf)
                        = (Split (''A'', 0, 1) (''B'', 1, 2), Fin (- 1))"
    by simp
  from mp [OF kept [THEN conjunct2] conjI [OF w g]] obtain m where m0: "m < length ?cl"
    and s: "getitem2 tb5 (0, 2) ''S'' = Inr (split_of 0 2 (?cl ! m))" "Fin (- 1) = score (?cl ! m)"
    and fs: "\<forall>m'<m. gt_op exact (score (?cl ! m)) (score (?cl ! m'))"
    by blast
  from m0 have m: "m < 2" by simp
  from fs [unfolded s(2) [symmetric]] have "\<forall>m'<m. fgt (Fin (- 1)) (score (?cl ! m'))"
    by (simp only: exact_simps)
  with m s(1) have "\<exists>m<2. getitem2 tb5 (0, 2) ''S'' = Inr (split_of 0 2 (?cl ! m))
          \<and> (\<forall>m'<m. fgt (Fin (- 1)) (score (?cl ! m')))" by blast
  with p t f g' w show ?thesis
    by (simp only: set_order_remdups parse_G5 cands_G5 simp_thms)
qed

section \<open>The two engines agree\<close>

lemma is_in_language_result:
  assumes "set_order so" and "tokens \<noteq> []"
  shows "fst (is_in_language so G tokens) = Inr (in_language G tokens)"
proof -
  from is_in_language_run_correct [OF assms, of "rules_of (rhs_to_rules G)" "startsymbol G"]
  have "ensures (fst (is_in_language_run so (startsymbol G) tokens (rhs_to_rules G)))
          (\<lambda>b. b = in_language G tokens) (\<lambda>_. False)"
    by (simp add: ensuresM_def in_language_def)
  then show ?thesis
    by (cases "fst (is_in_language_run so (startsymbol G) tokens (rhs_to_rules G))")
      (simp_all add: is_in_language_def split_def)
qed

lemma is_in_language_Nil: "fst (is_in_language so G []) = Inl IndexError"
  by (simp add: is_in_language_def is_in_language_run_def eval_defs)

lemma parse_Nil: "fst (parse_with_backpointers ar so G []) = Inr ([], [])"
  by (simp add: parse_with_backpointers_def parse_run_def eval_defs)

lemma parse_positive:
  assumes so: "set_order so" and pos: "all_positive G"
  shows "\<exists>tb pb. fst (parse_with_backpointers exact so G tokens) = Inr (tb, pb)
           \<and> chart_ok exact so (rules_of (rhs_to_rules G)) tokens (tb, pb)"
proof (cases "fst (parse_with_backpointers exact so G tokens)")
  case (Inl e)
  with parse_result [OF so, of exact G tokens] have "bad_prob (rules_of (rhs_to_rules G)) e" by simp
  with pos show ?thesis by (fastforce simp: bad_prob_def all_positive_def)
next
  case (Inr c)
  with parse_result [OF so, of exact G tokens] show ?thesis by (cases c) simp
qed

text \<open>The root cell of the returned probability chart: its keys are the symbols that
  derive the sentence, and each has a finite score.\<close>

lemma root_entry:
  assumes ok: "chart_ok exact so R tokens (tb, pb)" and so: "set_order so" and n: "tokens \<noteq> []"
  shows "(\<exists>x. getitem2 pb (0, length tokens) s = Inr (Fin x)) = derives R s tokens"
    and "getitem2 pb (0, length tokens) s \<noteq> Inr NegInf"
proof -
  let ?n = "length tokens"
  from n have n0: "0 < ?n" by simp
  from chart_ok_pb [OF ok, of 0 ?n] n0 have p: "map_of pb (0, ?n) \<noteq> None" by simp
  from cells_finite [OF ok so n0] have fin: "finite_cell (cellf pb (0, ?n))" by simp
  from chart_keys_reach [OF ok so n0]
  have keys: "fst ` set (cellf pb (0, ?n)) = {A. derives R A tokens}"
    by (simp add: reach_def slice_all)
  show "getitem2 pb (0, ?n) s \<noteq> Inr NegInf"
    using fin by (simp add: getitem2_iff finite_cell_def)
  show "(\<exists>x. getitem2 pb (0, ?n) s = Inr (Fin x)) = derives R s tokens"
  proof
    assume "\<exists>x. getitem2 pb (0, ?n) s = Inr (Fin x)"
    then obtain x where "map_of (cellf pb (0, ?n)) s = Some (Fin x)"
      by (auto simp: getitem2_iff)
    then have "s \<in> fst ` set (cellf pb (0, ?n))"
      by (metis map_of_eq_None_iff option.distinct(1))
    with keys show "derives R s tokens" by simp
  next
    assume "derives R s tokens"
    with keys have "s \<in> fst ` set (cellf pb (0, ?n))" by simp
    from val_finite [of "cellf pb" "(0, ?n)" s, OF fin this] p show "\<exists>x. getitem2 pb (0, ?n) s = Inr (Fin x)"
      by (auto simp: getitem2_iff)
  qed
qed

lemma root_has_start_iff:
  assumes ok: "chart_ok exact so (rules_of (rhs_to_rules G)) tokens (tb, pb)"
    and so: "set_order so" and n: "tokens \<noteq> []"
  shows "root_has_start G (length tokens) pb = in_language G tokens"
proof (cases "startsymbol G")
  case None
  then show ?thesis by (simp add: root_has_start_def in_language_def)
next
  case (Some s)
  from root_entry [OF ok so n, of s] Some show ?thesis
    by (auto simp: root_has_start_def in_language_def split: sum.splits pyfloat.splits)
qed

text \<open>
  C3, amended. For every grammar that passes validation and whose rule probabilities
  are all positive, and every token sequence, \<open>is_in_language\<close> returns \<open>True\<close> exactly
  when \<open>parse_with_backpointers\<close> returns charts whose probability chart has, in the
  cell of the span \<open>(0, n)\<close>, an entry for the start symbol with a finite score. This
  holds for every iteration order of the sets of either engine. The scores are those of
  the exact arithmetic; on a grammar that passes validation the probabilities of a
  left-hand side sum to 1, so with positive probabilities none is \<open>inf\<close> or NaN and
  every \<open>log2\<close> is a finite number.
\<close>

theorem engines_agree_on_positive_grammars:
  assumes "set_order so" and "set_order so'"
    and "verify_grammar G = ''confirmation!''" and "all_positive G"
  shows "(fst (is_in_language so G tokens) = Inr True)
       = (\<exists>tb pb. fst (parse_with_backpointers exact so' G tokens) = Inr (tb, pb)
            \<and> root_has_start G (length tokens) pb)"
proof (cases "tokens = []")
  case True
  then show ?thesis
    by (simp add: is_in_language_Nil parse_Nil root_has_start_def eval_defs
        split: option.splits)
next
  case False
  from parse_positive [OF assms(2,4), of tokens] obtain tb pb
    where p: "fst (parse_with_backpointers exact so' G tokens) = Inr (tb, pb)"
      and ok: "chart_ok exact so' (rules_of (rhs_to_rules G)) tokens (tb, pb)" by blast
  from root_has_start_iff [OF ok assms(2) False] p is_in_language_result [OF assms(1) False, of G]
  show ?thesis by simp
qed

lemma all_positive_G0: "all_positive G0"
  by (auto simp: all_positive_def G0_def rules_of_def split: if_splits)

theorem engines_agree_on_positive_grammars_witness:
  "set_order (remdups :: string list \<Rightarrow> string list)
   \<and> set_order (remdups :: (string \<times> real) list \<Rightarrow> (string \<times> real) list)
   \<and> verify_grammar G0 = ''confirmation!'' \<and> all_positive G0
   \<and> fst (is_in_language remdups G0 [''dogs'', ''bark'']) = Inr True
   \<and> (\<exists>tb pb. fst (parse_with_backpointers exact remdups G0 [''dogs'', ''bark'']) = Inr (tb, pb)
         \<and> root_has_start G0 (length [''dogs'', ''bark'']) pb)"
proof -
  have a: "fst (is_in_language remdups G0 [''dogs'', ''bark'']) = Inr True"
    by (simp add: is_in_language_def is_in_language_run_def G0_def eval_defs split_step_def
        upt_rec numeral_eq_Suc)
  have v: "verify_grammar G0 = ''confirmation!''"
    by (simp add: verify_grammar_def G0_def isclose_def fsum_def rule_format_ok_def
        isupper_def is_upper_char_def is_lower_char_def)
  from engines_agree_on_positive_grammars [OF set_order_remdups set_order_remdups v all_positive_G0,
      of "[''dogs'', ''bark'']"] a
  have "\<exists>tb pb. fst (parse_with_backpointers exact remdups G0 [''dogs'', ''bark'']) = Inr (tb, pb)
         \<and> root_has_start G0 (length [''dogs'', ''bark'']) pb" by simp
  with a v show ?thesis by (simp only: set_order_remdups all_positive_G0 simp_thms)
qed

text \<open>
  C3 as stated fails. The grammar \<open>S -> a ; 1.0\<close>, \<open>S -> b ; 0.0\<close> passes validation,
  \<open>is_in_language\<close> returns \<open>True\<close> on \<open>b\<close>, and \<open>parse_with_backpointers\<close> returns no chart
  on \<open>b\<close>: \<open>math.log2(0.0)\<close> raises ValueError.
\<close>

theorem engines_disagree_counterexample:
  "verify_grammar G3 = ''confirmation!''
   \<and> fst (is_in_language remdups G3 [''b'']) = Inr True
   \<and> fst (parse_with_backpointers exact remdups G3 [''b'']) = Inl ValueError"
proof -
  have "verify_grammar G3 = ''confirmation!''"
    by (simp add: verify_grammar_def G3_def isclose_def fsum_def rule_format_ok_def
        isupper_def is_upper_char_def is_lower_char_def)
  moreover have "fst (is_in_language remdups G3 [''b'']) = Inr True"
    by (simp add: is_in_language_def is_in_language_run_def G3_def eval_defs split_step_def
        upt_rec numeral_eq_Suc)
  moreover have "fst (parse_with_backpointers exact remdups G3 [''b'']) = Inl ValueError"
    by (simp add: parse_with_backpointers_def parse_run_def G3_def eval_defs
        base_step_def span_step_def cand_step_def upt_rec numeral_eq_Suc)
  ultimately show ?thesis by simp
qed

section \<open>Finite scores and no sentinel\<close>

lemma parse_G0:
  "fst (parse_with_backpointers exact remdups G0 [''dogs'', ''bark'']) = Inr (tb_G0, pb_G0)"
  by (simp add: parse_with_backpointers_def parse_run_def G0_def tb_G0_def pb_G0_def eval_defs
      base_step_def span_step_def cand_step_def upt_rec numeral_eq_Suc)

lemma log2_unit: "0 < p \<Longrightarrow> p \<le> 1 \<Longrightarrow> log 2 p \<le> 0"
  by simp

lemma cells_nonpositive:
  assumes ok: "chart_ok exact so R tokens (tb, pb)" and so: "set_order so"
    and unit: "\<And>key l rhs p. (l, rhs, p) \<in> set (R key) \<Longrightarrow> 0 < p \<and> p \<le> 1"
  shows "i < j \<Longrightarrow> j \<le> length tokens \<Longrightarrow> map_of (cellf pb (i, j)) a = Some v
           \<Longrightarrow> \<exists>x. v = Fin x \<and> x \<le> 0"
proof (induction "j - i" arbitrary: i j a v rule: less_induct)
  case less
  show ?case
  proof (cases "j = Suc i")
    case True
    with less.prems have i: "i < length tokens" by simp
    from chart_ok_base [OF ok i] have "cellf pb (i, j) = snd (base_cells exact so R (tokens ! i))"
      by (simp add: True prod_eq_iff)
    with less.prems(3) base_cells_values(2) [OF so, of exact R "tokens ! i" a v]
    obtain rhs p where "(a, rhs, p) \<in> set (R [tokens ! i])" "v = Fin (log 2 p)" by auto
    with unit [of a rhs p "[tokens ! i]"] show ?thesis by (simp add: log2_unit)
  next
    case False
    with less.prems have ij: "i + 2 \<le> j" "j \<le> length tokens" by auto
    let ?cl = "cands_for exact R (cellf pb) i j a"
    from chart_entry [OF ok so ij less.prems(3)] obtain m where m: "m < length ?cl"
      and v: "v = score (?cl ! m)" by blast
    from m have "?cl ! m \<in> set ?cl" by simp
    then obtain k x y rhs p where k: "i < k" "k < j" "x \<in> fst ` set (cellf pb (i, k))"
      "y \<in> fst ` set (cellf pb (k, j))" "(a, rhs, p) \<in> set (R [x, y])"
      and c: "?cl ! m = cand_of exact (cellf pb) i j k x y (a, rhs, p)"
      unfolding in_cands_for by blast
    from k(1,2) ij cells_finite [OF ok so]
    have fin: "finite_cell (cellf pb (i, k))" "finite_cell (cellf pb (k, j))" by simp_all
    from val_finite [of "cellf pb" "(i, k)" x, OF fin(1) k(3)] obtain r1
      where r1: "val exact (cellf pb) (i, k) x = Fin r1" "map_of (cellf pb (i, k)) x = Some (Fin r1)"
      by blast
    from val_finite [of "cellf pb" "(k, j)" y, OF fin(2) k(4)] obtain r2
      where r2: "val exact (cellf pb) (k, j) y = Fin r2" "map_of (cellf pb (k, j)) y = Some (Fin r2)"
      by blast
    from less.hyps [of k i x "Fin r1"] k(1,2) ij r1(2) have "r1 \<le> 0" by simp
    moreover from less.hyps [of j k y "Fin r2"] k(1,2) ij r2(2) have "r2 \<le> 0" by simp
    moreover from unit [OF k(5)] have "log 2 p \<le> 0" by (simp add: log2_unit)
    moreover have "v = Fin (log 2 p + r1 + r2)"
      by (simp add: v c score_cand_of r1(1) r2(1))
    ultimately show ?thesis by simp
  qed
qed

lemma cells_no_sentinel:
  assumes ok: "chart_ok exact so R tokens (tb, pb)" and so: "set_order so"
    and ij: "i < j" "j \<le> length tokens"
  shows "map_of (cellf tb (i, j)) a \<noteq> Some Sentinel"
proof (cases "j = Suc i")
  case True
  with ij have i: "i < length tokens" by simp
  from chart_ok_base [OF ok i] have "cellf tb (i, j) = fst (base_cells exact so R (tokens ! i))"
    by (simp add: True prod_eq_iff)
  with base_cells_values(1) [OF so, of exact R "tokens ! i" a Sentinel] show ?thesis by auto
next
  case False
  with ij have ij2: "i + 2 \<le> j" "j \<le> length tokens" by auto
  show ?thesis
  proof
    assume s: "map_of (cellf tb (i, j)) a = Some Sentinel"
    then have "a \<in> fst ` set (cellf tb (i, j))" by (metis map_of_eq_None_iff option.distinct(1))
    with chart_keys_same [OF ok so ij] have "a \<in> fst ` set (cellf pb (i, j))" by simp
    then obtain v where "map_of (cellf pb (i, j)) a = Some v"
      by (metis map_of_eq_None_iff not_Some_eq)
    from chart_entry [OF ok so ij2 this] s show False
      by (auto simp: split_of_def split_def)
  qed
qed

text \<open>
  C8. For every grammar whose rule probabilities lie in \<open>(0, 1]\<close> and every token
  sequence, \<open>parse_with_backpointers\<close> returns, every value stored in the returned
  probability chart is a finite number less than or equal to 0, so never \<open>-inf\<close>, and no
  entry of the returned backpointer chart is the sentinel \<open>((0,0,0),(0,0,0))\<close>. The
  scores are those of the exact arithmetic.
\<close>

theorem chart_values_finite_nonpositive:
  assumes "set_order so" and "probs_in_unit G"
  shows "\<exists>tb pb. fst (parse_with_backpointers exact so G tokens) = Inr (tb, pb)
           \<and> (\<forall>sp a v. getitem2 pb sp a = Inr v \<longrightarrow> (\<exists>x. v = Fin x \<and> x \<le> 0))
           \<and> (\<forall>sp a. getitem2 tb sp a \<noteq> Inr Sentinel)"
proof -
  let ?R = "rules_of (rhs_to_rules G)"
  from assms(2) have unit: "\<And>key l rhs p. (l, rhs, p) \<in> set (?R key) \<Longrightarrow> 0 < p \<and> p \<le> 1"
    unfolding probs_in_unit_def by blast
  then have "all_positive G" unfolding all_positive_def by blast
  from parse_positive [OF assms(1) this, of tokens] obtain tb pb
    where p: "fst (parse_with_backpointers exact so G tokens) = Inr (tb, pb)"
      and ok: "chart_ok exact so ?R tokens (tb, pb)" by blast
  have "\<exists>x. v = Fin x \<and> x \<le> 0" if g: "getitem2 pb sp a = Inr v" for sp a v
  proof -
    obtain i j where sp: "sp = (i, j)" by (cases sp)
    from g have m: "map_of pb (i, j) \<noteq> None" "map_of (cellf pb (i, j)) a = Some v"
      by (simp_all add: getitem2_iff sp)
    from m(1) chart_ok_pb [OF ok, of i j] have "i < j" "j \<le> length tokens" by simp_all
    from cells_nonpositive [OF ok assms(1) unit this m(2)] show ?thesis .
  qed
  moreover have "getitem2 tb sp a \<noteq> Inr Sentinel" for sp a
  proof
    assume g: "getitem2 tb sp a = Inr Sentinel"
    obtain i j where sp: "sp = (i, j)" by (cases sp)
    from g have m: "map_of tb (i, j) \<noteq> None" "map_of (cellf tb (i, j)) a = Some Sentinel"
      by (simp_all add: getitem2_iff sp)
    from m(1) chart_ok_tb [OF ok, of i j] have "i < j" "j \<le> length tokens" by simp_all
    from cells_no_sentinel [OF ok assms(1) this] m(2) show False by simp
  qed
  ultimately show ?thesis using p by blast
qed

lemma probs_in_unit_G0: "probs_in_unit G0"
  by (auto simp: probs_in_unit_def G0_def rules_of_def split: if_splits)

theorem chart_values_finite_nonpositive_witness:
  "set_order (remdups :: (string \<times> real) list \<Rightarrow> (string \<times> real) list)
   \<and> probs_in_unit G0
   \<and> fst (parse_with_backpointers exact remdups G0 [''dogs'', ''bark'']) = Inr (tb_G0, pb_G0)
   \<and> getitem2 pb_G0 (0, 2) ''S'' = Inr (Fin 0)
   \<and> (\<exists>tb pb. fst (parse_with_backpointers exact remdups G0 [''dogs'', ''bark'']) = Inr (tb, pb)
        \<and> (\<forall>sp a v. getitem2 pb sp a = Inr v \<longrightarrow> (\<exists>x. v = Fin x \<and> x \<le> 0))
        \<and> (\<forall>sp a. getitem2 tb sp a \<noteq> Inr Sentinel))"
proof -
  have g: "getitem2 pb_G0 (0, 2) ''S'' = Inr (Fin 0)"
    by (simp add: pb_G0_def eval_defs)
  from chart_values_finite_nonpositive [OF set_order_remdups probs_in_unit_G0,
      of "[''dogs'', ''bark'']"] g
  show ?thesis by (simp only: set_order_remdups probs_in_unit_G0 parse_G0 simp_thms)
qed

section \<open>get\_tree on the returned chart\<close>






section \<open>Scores and derivations\<close>

lemma deriv_derives: "deriv R A w s \<Longrightarrow> derives R A w"
  by (induction rule: deriv.induct) (auto intro: derives.intros)

lemma deriv_single:
  assumes "deriv R A [t] s"
  shows "\<exists>rhs p. (A, rhs, p) \<in> set (R [t]) \<and> s = log 2 p"
  using assms
proof (cases rule: deriv.cases)
  case (unary_score rhs p)
  then show ?thesis by auto
next
  case (binary_score rhs p B C u s1 v s2)
  then have "u \<noteq> []" "v \<noteq> []" by (auto dest: deriv_derives derives_nonempty)
  with binary_score(1) show ?thesis by (cases u; cases v) auto
qed

lemma deriv_long:
  assumes "2 \<le> length w" and "deriv R A w s"
  shows "\<exists>B C u v rhs p s1 s2. w = u @ v \<and> (A, rhs, p) \<in> set (R [B, C])
           \<and> deriv R B u s1 \<and> deriv R C v s2 \<and> s = log 2 p + s1 + s2"
  using assms(2)
proof (cases rule: deriv.cases)
  case (unary_score rhs p t)
  with assms(1) show ?thesis by simp
next
  case (binary_score rhs p B C u s1 v s2)
  then show ?thesis by blast
qed

text \<open>
  Apart from the cells of single tokens the scores are optimal: when two rules with the
  same left-hand side and the same token never differ in probability, every stored
  score is the score of a derivation of the span and no derivation of the span scores
  more.
\<close>

lemma chart_scores_optimal:
  assumes ok: "chart_ok exact so R tokens (tb, pb)" and so: "set_order so"
    and uniq: "\<And>t l rhs p rhs' p'. (l, rhs, p) \<in> set (R [t]) \<Longrightarrow> (l, rhs', p') \<in> set (R [t])
                 \<Longrightarrow> p = p'"
  shows "i < j \<Longrightarrow> j \<le> length tokens \<Longrightarrow> map_of (cellf pb (i, j)) a = Some v
           \<Longrightarrow> \<exists>s. v = Fin s \<and> deriv R a (slice tokens i j) s
                 \<and> (\<forall>s'. deriv R a (slice tokens i j) s' \<longrightarrow> s' \<le> s)"
proof (induction "j - i" arbitrary: i j a v rule: less_induct)
  case less
  show ?case
  proof (cases "j = Suc i")
    case True
    with less.prems have i: "i < length tokens" by simp
    then have sl: "slice tokens i j = [tokens ! i]" by (simp add: True slice_single)
    from chart_ok_base [OF ok i] have "cellf pb (i, j) = snd (base_cells exact so R (tokens ! i))"
      by (simp add: True prod_eq_iff)
    with less.prems(3) base_cells_values(2) [OF so, of exact R "tokens ! i" a v]
    obtain rhs p where r: "(a, rhs, p) \<in> set (R [tokens ! i])" and v: "v = Fin (log 2 p)" by auto
    from r have "deriv R a (slice tokens i j) (log 2 p)"
      unfolding sl by (rule deriv.unary_score)
    moreover have "s' \<le> log 2 p" if "deriv R a (slice tokens i j) s'" for s'
    proof -
      from that [unfolded sl] deriv_single obtain rhs' p'
        where "(a, rhs', p') \<in> set (R [tokens ! i])" "s' = log 2 p'" by blast
      with uniq [OF r this(1)] show ?thesis by simp
    qed
    ultimately show ?thesis using v by blast
  next
    case False
    with less.prems have ij: "i + 2 \<le> j" "j \<le> length tokens" by auto
    let ?cf = "cellf pb"
    let ?cl = "cands_for exact R ?cf i j a"
    from chart_entry [OF ok so ij less.prems(3)] obtain m where m: "m < length ?cl"
      and v: "v = score (?cl ! m)"
      and mx: "\<forall>m'<length ?cl. \<not> fgt (score (?cl ! m')) v" by blast
    from m have "?cl ! m \<in> set ?cl" by simp
    then obtain k x y rhs p where k: "i < k" "k < j" "x \<in> fst ` set (?cf (i, k))"
      "y \<in> fst ` set (?cf (k, j))" "(a, rhs, p) \<in> set (R [x, y])"
      and c: "?cl ! m = cand_of exact ?cf i j k x y (a, rhs, p)"
      unfolding in_cands_for by blast
    from k ij have lt: "k - i < j - i" "j - k < j - i" "k \<le> length tokens" by simp_all
    from k(1,2) ij cells_finite [OF ok so]
    have fin: "finite_cell (?cf (i, k))" "finite_cell (?cf (k, j))" by simp_all
    from val_finite [of ?cf "(i, k)" x, OF fin(1) k(3)] obtain r1
      where r1: "val exact ?cf (i, k) x = Fin r1" "map_of (?cf (i, k)) x = Some (Fin r1)" by blast
    from val_finite [of ?cf "(k, j)" y, OF fin(2) k(4)] obtain r2
      where r2: "val exact ?cf (k, j) y = Fin r2" "map_of (?cf (k, j)) y = Some (Fin r2)" by blast
    from less.hyps [OF lt(1) k(1) lt(3) r1(2)] have d1: "deriv R x (slice tokens i k) r1" by simp
    from less.hyps [OF lt(2) k(2) ij(2) r2(2)] have d2: "deriv R y (slice tokens k j) r2" by simp
    have veq: "v = Fin (log 2 p + r1 + r2)"
      by (simp add: v c score_cand_of r1(1) r2(1))
    from deriv.binary_score [OF k(5) d1 d2] k(1,2) slice_append [of i k j tokens]
    have d: "deriv R a (slice tokens i j) (log 2 p + r1 + r2)" by simp
    have "s' \<le> log 2 p + r1 + r2" if d': "deriv R a (slice tokens i j) s'" for s'
    proof -
      from ij have "2 \<le> length (slice tokens i j)" by (simp add: length_slice)
      from deriv_long [OF this d'] obtain B C u w rhs' p' s1 s2
        where w: "slice tokens i j = u @ w" and r: "(a, rhs', p') \<in> set (R [B, C])"
          and dB: "deriv R B u s1" and dC: "deriv R C w s2" and s': "s' = log 2 p' + s1 + s2"
        by blast
      from dB dC have ne: "u \<noteq> []" "w \<noteq> []" by (auto dest: deriv_derives derives_nonempty)
      define k' where "k' = i + length u"
      from ij have "i \<le> j" by simp
      note ss = slice_split [OF w ij(2) this, folded k'_def]
      from ss have sp: "u = slice tokens i k'" "w = slice tokens k' j" "k' + length w = j"
        by blast+
      from ne have "0 < length u" "0 < length w" by simp_all
      with sp(3) have k': "i < k'" "k' < j" unfolding k'_def by linarith+
      with ij have lt': "k' - i < j - i" "j - k' < j - i" "k' \<le> length tokens" by simp_all
      from dB sp(1) have "B \<in> reach R tokens i k'" by (auto simp: reach_def dest: deriv_derives)
      with chart_keys_reach [OF ok so k'(1) lt'(3)] have B: "B \<in> fst ` set (?cf (i, k'))" by simp
      from dC sp(2) have "C \<in> reach R tokens k' j" by (auto simp: reach_def dest: deriv_derives)
      with chart_keys_reach [OF ok so k'(2) ij(2)] have C: "C \<in> fst ` set (?cf (k', j))" by simp
      from k' ij cells_finite [OF ok so]
      have fin': "finite_cell (?cf (i, k'))" "finite_cell (?cf (k', j))" by simp_all
      from val_finite [of ?cf "(i, k')" B, OF fin'(1) B] obtain m1
        where m1: "val exact ?cf (i, k') B = Fin m1" "map_of (?cf (i, k')) B = Some (Fin m1)" by blast
      from val_finite [of ?cf "(k', j)" C, OF fin'(2) C] obtain m2
        where m2: "val exact ?cf (k', j) C = Fin m2" "map_of (?cf (k', j)) C = Some (Fin m2)" by blast
      from less.hyps [OF lt'(1) k'(1) lt'(3) m1(2)] dB sp(1) have le1: "s1 \<le> m1" by auto
      from less.hyps [OF lt'(2) k'(2) ij(2) m2(2)] dC sp(2) have le2: "s2 \<le> m2" by auto
      let ?c = "cand_of exact ?cf i j k' B C (a, rhs', p')"
      from k' B C r have "?c \<in> set ?cl" unfolding in_cands_for by blast
      then obtain m' where "m' < length ?cl" "?cl ! m' = ?c" by (auto simp: in_set_conv_nth)
      with mx have "\<not> fgt (score ?c) v" by auto
      then have "log 2 p' + m1 + m2 \<le> log 2 p + r1 + r2"
        by (simp add: score_cand_of m1(1) m2(1) veq)
      with le1 le2 show ?thesis by (simp add: s')
    qed
    with veq d show ?thesis by blast
  qed
qed

text \<open>
  C1. The grammar \<open>A -> x ; 0.5\<close>, \<open>A -> x ; 0.25\<close>, \<open>A -> y ; 0.25\<close> passes validation.
  On the sentence \<open>x\<close>, when the set of the pairs \<open>(A, 0.5)\<close> and \<open>(A, 0.25)\<close> is iterated
  in this order, the loop over the set stores \<open>log2(0.5)\<close> and then overwrites it with
  \<open>log2(0.25) = -2\<close>, while the derivation by the first rule has the score \<open>-1\<close>: the
  stored value is not the maximum. Both logarithms are exact.
\<close>

theorem base_case_keeps_last_rule:
  "verify_grammar G1 = ''confirmation!''
   \<and> fst (parse_with_backpointers exact remdups G1 [''x''])
       = Inr ([((0, 1), [(''A'', Leaf ''x'')])], [((0, 1), [(''A'', Fin (- 2))])])
   \<and> deriv (rules_of (rhs_to_rules G1)) ''A'' (slice [''x''] 0 1) (- 1)"
proof -
  have "verify_grammar G1 = ''confirmation!''"
    by (simp add: verify_grammar_def G1_def isclose_def fsum_def rule_format_ok_def
        isupper_def is_upper_char_def is_lower_char_def)
  moreover have "fst (parse_with_backpointers exact remdups G1 [''x''])
       = Inr ([((0, 1), [(''A'', Leaf ''x'')])], [((0, 1), [(''A'', Fin (- 2))])])"
    by (simp add: parse_with_backpointers_def parse_run_def G1_def eval_defs
        base_step_def span_step_def cand_step_def upt_rec numeral_eq_Suc log2_half log2_quarter)
  moreover have "deriv (rules_of (rhs_to_rules G1)) ''A'' (slice [''x''] 0 1) (- 1)"
  proof -
    have "(''A'', [''x''], 1 / 2) \<in> set (rules_of (rhs_to_rules G1) [''x''])"
      by (simp add: rules_of_def G1_def)
    then have "deriv (rules_of (rhs_to_rules G1)) ''A'' [''x''] (log 2 (1 / 2))"
      by (rule deriv.unary_score)
    then show ?thesis by (simp add: slice_def log2_half)
  qed
  ultimately show ?thesis by simp
qed

end
